theory Spec2Isabelle
  imports Main
begin

section \<open>Data model (matrix\_core.h, backtrack.h, error\_codes.h)\<close>

text \<open>
  The C matrix is a linked list of row nodes, each holding a linked list of
  \<^verbatim>\<open>MatrixElement\<close> cells. The cells are the only objects any solver writes to, so
  they live in an explicit store: a \<open>heap\<close> is the list of all allocated cells and an
  address is an index into it (\<^verbatim>\<open>malloc\<close> appends a cell). The \<^verbatim>\<open>nextRow\<close> and
  \<^verbatim>\<open>nextCol\<close> chains are kept as lists of addresses, in chain order.

  A C \<^verbatim>\<open>int\<close> is a 32-bit two's-complement number. The model keeps it as an integer
  and writes the wrap-around out: every sum, difference and negation the solvers
  compute on cell values goes through \<open>wrap\<close>, which brings the exact result back into
  the range from \<^verbatim>\<open>INT_MIN\<close> to \<^verbatim>\<open>INT_MAX\<close>. (Signed overflow is undefined in C; the
  wrapped result is what the compiled program computes.) Row and column indices and
  the counters of chosen cells are bounded by the dimensions of the matrix and are
  not wrapped. The theorems do not ask the cells of the initial store to hold numbers
  of the \<^verbatim>\<open>int\<close> range, so they hold in particular for every store the program can
  build.

  The field \<^verbatim>\<open>value\<close> of \<^verbatim>\<open>MatrixElement\<close> is called \<open>val\<close> and that of
  \<^verbatim>\<open>SelectedElement\<close> is called \<open>selval\<close>. A solver's result is \<open>Inl\<close> of the error
  code it returns, or \<open>Inr\<close> of what it leaves in its out-parameters when it returns
  \<^verbatim>\<open>SUCCESS\<close>.
\<close>

record MatrixElement =
  val :: int
  column :: int

type_synonym addr = nat
type_synonym heap = "MatrixElement list"

record Matrix =
  head :: "addr list list"
  width :: int
  height :: int

record SelectedElement =
  row :: int
  col :: int
  selval :: int

datatype error = MEMORY_ALLOCATION_FAILURE | INVALID_MATRIX_OR_INDICES

definition INT_MIN :: int where
  "INT_MIN = - 2147483648"

definition INT_MAX :: int where
  "INT_MAX = 2147483647"

definition wrap :: "int \<Rightarrow> int" where
  "wrap x = (x + 2147483648) mod 4294967296 - 2147483648"

definition int_range :: "int \<Rightarrow> bool" where
  "int_range x = (INT_MIN \<le> x \<and> x \<le> INT_MAX)"

text \<open>
  \<^verbatim>\<open>calloc(n, size)\<close> with an \<^verbatim>\<open>int\<close> count: a negative count converts to a huge
  \<^verbatim>\<open>size_t\<close> and the request fails; a zero-size request is implementation-defined and
  is taken here to return a non-null pointer (as glibc does). Exhaustion of memory is not
  modelled.
\<close>

definition calloc_fails :: "int \<Rightarrow> bool" where
  "calloc_fails n = (n < 0)"

text \<open>\<^verbatim>\<open>GetRowNode\<close> and \<^verbatim>\<open>GetElementCol\<close> (matrix\_core.c): \<open>None\<close> is \<^verbatim>\<open>NULL\<close>.\<close>

definition GetRowNode :: "Matrix \<Rightarrow> int \<Rightarrow> addr list option" where
  "GetRowNode matrix rowIndex =
     (if rowIndex < 0 \<or> rowIndex \<ge> height matrix then None
      else if nat rowIndex < length (head matrix) then Some (head matrix ! nat rowIndex)
      else None)"

definition GetElementCol :: "addr list option \<Rightarrow> int \<Rightarrow> addr option" where
  "GetElementCol rowNode colIndex =
     (case rowNode of
        None \<Rightarrow> None
      | Some r \<Rightarrow>
          if colIndex < 0 then None
          else if nat colIndex < length r then Some (r ! nat colIndex)
          else None)"

text \<open>
  \<^verbatim>\<open>GetElementCol(GetRowNode(matrix, row), col)->value\<close>, as the solvers write it with no
  null check. Dereferencing \<^verbatim>\<open>NULL\<close> is undefined in C; the model's value there is the
  unspecified \<open>the None\<close>. It is never reached on a valid matrix.
\<close>

definition cell_addr :: "Matrix \<Rightarrow> nat \<Rightarrow> nat \<Rightarrow> addr" where
  "cell_addr matrix r c = the (GetElementCol (GetRowNode matrix (int r)) (int c))"

definition cell_value :: "heap \<Rightarrow> Matrix \<Rightarrow> nat \<Rightarrow> nat \<Rightarrow> int" where
  "cell_value h matrix r c = val (h ! cell_addr matrix r c)"

text \<open>
  A valid matrix: positive dimensions, \<open>height\<close> rows of \<open>width\<close> allocated cells each,
  the \<open>column\<close> field of every cell equal to its position in the row (as
  \<^verbatim>\<open>CreateMatrix\<close> builds it).
\<close>

definition valid_row :: "heap \<Rightarrow> int \<Rightarrow> addr list \<Rightarrow> bool" where
  "valid_row h w r =
     (length r = nat w \<and> list_all (\<lambda>a. a < length h) r \<and>
      map (\<lambda>a. column (h ! a)) r = map int [0..<nat w])"

definition valid_matrix :: "heap \<Rightarrow> Matrix \<Rightarrow> bool" where
  "valid_matrix h matrix =
     (0 < width matrix \<and> 0 < height matrix \<and>
      length (head matrix) = nat (height matrix) \<and>
      list_all (valid_row h (width matrix)) (head matrix))"

section \<open>The Greedy solver (greedy.c)\<close>

text \<open>
  The local variables of \<^verbatim>\<open>GreedyAlgorithm\<close> and its three out-parameters. \<open>gMaxSelection\<close>
  is the prefix of the caller's buffer written so far (one value per chosen cell);
  \<open>gCells\<close> records, for each chosen cell, the \<open>rowIndex\<close> and \<^verbatim>\<open>maxElement->column\<close>
  the loop marks in \<open>usedRows\<close> and \<open>usedColumns\<close>, and its value.
\<close>

record GreedyState =
  gMaxSum :: int
  gMaxSelection :: "int list"
  gCurrentSelectionSize :: int
  gUsedRows :: "int list"
  gUsedColumns :: "int list"
  gCells :: "SelectedElement list"

text \<open>The inner \<^verbatim>\<open>while\<close>: the scan of one row for its largest eligible cell.\<close>

fun greedy_scan ::
  "heap \<Rightarrow> int list \<Rightarrow> int list \<Rightarrow> nat \<Rightarrow> addr list \<Rightarrow> int \<times> addr option \<Rightarrow> int \<times> addr option"
where
  "greedy_scan h uR uC rowIndex [] acc = acc"
| "greedy_scan h uR uC rowIndex (a # as) (maxElementValue, maxElement) =
     greedy_scan h uR uC rowIndex as
       (if uR ! rowIndex = 0 \<and> uC ! nat (column (h ! a)) = 0 \<and> val (h ! a) > maxElementValue
        then (val (h ! a), Some a)
        else (maxElementValue, maxElement))"

definition greedy_select :: "heap \<Rightarrow> nat \<Rightarrow> addr \<Rightarrow> GreedyState \<Rightarrow> GreedyState" where
  "greedy_select h rowIndex a st =
     st\<lparr> gMaxSelection := gMaxSelection st @ [val (h ! a)],
         gCurrentSelectionSize := gCurrentSelectionSize st + 1,
         gMaxSum := wrap (gMaxSum st + val (h ! a)),
         gUsedRows := (gUsedRows st)[rowIndex := 1],
         gUsedColumns := (gUsedColumns st)[nat (column (h ! a)) := 1],
         gCells := gCells st @
           [\<lparr>row = int rowIndex, col = column (h ! a), selval = val (h ! a)\<rparr>] \<rparr>"

text \<open>The outer \<^verbatim>\<open>while\<close> over the row nodes, \<open>rowIndex\<close> counting them.\<close>

fun greedy_rows :: "heap \<Rightarrow> addr list list \<Rightarrow> nat \<Rightarrow> GreedyState \<Rightarrow> GreedyState" where
  "greedy_rows h [] rowIndex st = st"
| "greedy_rows h (r # rs) rowIndex st =
     (case snd (greedy_scan h (gUsedRows st) (gUsedColumns st) rowIndex r (INT_MIN, None)) of
        None \<Rightarrow> greedy_rows h rs (Suc rowIndex) st
      | Some a \<Rightarrow> greedy_rows h rs (Suc rowIndex) (greedy_select h rowIndex a st))"

definition greedy_init :: "Matrix \<Rightarrow> GreedyState" where
  "greedy_init matrix =
     \<lparr> gMaxSum = 0, gMaxSelection = [], gCurrentSelectionSize = 0,
       gUsedRows = replicate (nat (height matrix)) 0,
       gUsedColumns = replicate (nat (width matrix)) 0,
       gCells = [] \<rparr>"

definition GreedyAlgorithm :: "heap \<Rightarrow> Matrix option \<Rightarrow> error + GreedyState" where
  "GreedyAlgorithm h matrix =
     (case matrix of
        None \<Rightarrow> Inl INVALID_MATRIX_OR_INDICES
      | Some m \<Rightarrow>
          if width m \<le> 0 then Inl INVALID_MATRIX_OR_INDICES
          else if calloc_fails (height m) \<or> calloc_fails (width m)
          then Inl MEMORY_ALLOCATION_FAILURE
          else Inr (greedy_rows h (head m) 0 (greedy_init m)))"

section \<open>The Backtrack solver (backtrack.c)\<close>

text \<open>
  The storage the \<^verbatim>\<open>ExploreParams\<close> pointers share between all recursive calls.
  \<open>selectionValues\<close> is the prefix of the array that holds the current snapshot, of
  length \<open>selectionCount\<close>; the cells of the array behind it are dead storage.
  \<open>currentRow\<close> and \<open>currentSum\<close> are passed by value and are arguments of \<open>Explore\<close>.
\<close>

record ExploreParams =
  maxSum :: int
  usedRows :: "int list"
  usedColumns :: "int list"
  selectionCount :: int
  selectionValues :: "SelectedElement list"

definition copy_step :: "heap \<Rightarrow> Matrix \<Rightarrow> nat \<Rightarrow> ExploreParams \<Rightarrow> ExploreParams" where
  "copy_step h matrix i params =
     (if usedColumns params ! i \<noteq> 0 then
        let colIndex = usedColumns params ! i - 1 in
        params\<lparr> selectionValues := selectionValues params @
                   [\<lparr>row = int i, col = colIndex,
                     selval = val (h ! the (GetElementCol (GetRowNode matrix (int i)) colIndex))\<rparr>],
                 selectionCount := selectionCount params + 1 \<rparr>
      else params)"

definition CopySelectedValues :: "heap \<Rightarrow> Matrix \<Rightarrow> ExploreParams \<Rightarrow> ExploreParams" where
  "CopySelectedValues h matrix params =
     fold (copy_step h matrix) [0..<nat (height matrix)]
       (params\<lparr>selectionCount := 0, selectionValues := []\<rparr>)"

definition mark :: "nat \<Rightarrow> nat \<Rightarrow> ExploreParams \<Rightarrow> ExploreParams" where
  "mark currentRow i params =
     params\<lparr> usedRows := (usedRows params)[currentRow := 1],
             usedColumns := (usedColumns params)[i := int currentRow + 1] \<rparr>"

definition unmark :: "nat \<Rightarrow> nat \<Rightarrow> ExploreParams \<Rightarrow> ExploreParams" where
  "unmark currentRow i params =
     params\<lparr> usedRows := (usedRows params)[currentRow := 0],
             usedColumns := (usedColumns params)[i := 0] \<rparr>"

text \<open>
  \<^verbatim>\<open>Explore\<close>. The C function is only ever entered with \<open>currentRow \<le> height\<close>
  (it starts at 0 and stops at \<open>height\<close>); the branch for \<open>currentRow > height\<close> is there
  to make the function total and is never taken.
\<close>

function Explore :: "heap \<Rightarrow> Matrix \<Rightarrow> nat \<Rightarrow> int \<Rightarrow> ExploreParams \<Rightarrow> ExploreParams" where
  "Explore h matrix currentRow currentSum params =
     (if int currentRow = height matrix then
        (if currentSum > maxSum params
         then CopySelectedValues h matrix (params\<lparr>maxSum := currentSum\<rparr>)
         else params)
      else if height matrix < int currentRow then params
      else
        fold (\<lambda>i p.
               if usedRows p ! currentRow = 0 \<and> usedColumns p ! i = 0 then
                 unmark currentRow i
                   (Explore h matrix (Suc currentRow)
                      (wrap (currentSum + cell_value h matrix currentRow i))
                      (mark currentRow i p))
               else p)
          [0..<nat (width matrix)] params)"
  by pat_completeness auto
termination
  by (relation "measure (\<lambda>(h, m, r, s, p). nat (height m) - r)") auto

declare Explore.simps [simp del]

definition explore_init :: "Matrix \<Rightarrow> ExploreParams" where
  "explore_init matrix =
     \<lparr> maxSum = 0,
       usedRows = replicate (nat (height matrix)) 0,
       usedColumns = replicate (nat (width matrix)) 0,
       selectionCount = 0, selectionValues = [] \<rparr>"

definition BacktrackAlgorithm :: "heap \<Rightarrow> Matrix option \<Rightarrow> error + ExploreParams" where
  "BacktrackAlgorithm h matrix =
     (case matrix of
        None \<Rightarrow> Inl INVALID_MATRIX_OR_INDICES
      | Some m \<Rightarrow>
          if width m \<le> 0 \<or> height m \<le> 0 then Inl INVALID_MATRIX_OR_INDICES
          else Inr (Explore h m 0 0 (explore_init m)))"

section \<open>The Hungarian solver (hungarian.c)\<close>

text \<open>
  \<^verbatim>\<open>CopyMatrix\<close>: every cell of the original is read and a new cell is allocated for
  it (appended to the store); the copy's rows list the new addresses. Allocation
  failure (a \<^verbatim>\<open>NULL\<close> return) is not modelled.
\<close>

fun copy_elements :: "heap \<Rightarrow> addr list \<Rightarrow> heap \<times> addr list" where
  "copy_elements h [] = (h, [])"
| "copy_elements h (originalElement # rest) =
     (let newElement = length h;
          h1 = h @ [\<lparr>val = val (h ! originalElement), column = column (h ! originalElement)\<rparr>];
          (h2, newRest) = copy_elements h1 rest
      in (h2, newElement # newRest))"

fun copy_rows :: "heap \<Rightarrow> addr list list \<Rightarrow> heap \<times> addr list list" where
  "copy_rows h [] = (h, [])"
| "copy_rows h (originalRow # rest) =
     (let (h1, newRow) = copy_elements h originalRow;
          (h2, newRest) = copy_rows h1 rest
      in (h2, newRow # newRest))"

definition CopyMatrix :: "heap \<Rightarrow> Matrix \<Rightarrow> heap \<times> Matrix" where
  "CopyMatrix h originalMatrix =
     (let (h1, newRows) = copy_rows h (head originalMatrix)
      in (h1, \<lparr>head = newRows, width = width originalMatrix, height = height originalMatrix\<rparr>))"

text \<open>The assignment \<^verbatim>\<open>element->value = v\<close> through the pointer \<open>a\<close>.\<close>

definition set_value :: "heap \<Rightarrow> addr \<Rightarrow> int \<Rightarrow> heap" where
  "set_value h a v = h[a := (h ! a)\<lparr>val := v\<rparr>]"

definition NegateAllElements :: "heap \<Rightarrow> Matrix \<Rightarrow> heap" where
  "NegateAllElements h matrix =
     fold (\<lambda>rowNode. fold (\<lambda>element h. set_value h element (wrap (- val (h ! element)))) rowNode)
       (head matrix) h"

definition MakeMatrixNonnegative :: "heap \<Rightarrow> Matrix \<Rightarrow> heap" where
  "MakeMatrixNonnegative h matrix =
     (let minValue =
            fold (\<lambda>rowNode. fold (\<lambda>element minValue.
                    if val (h ! element) < minValue then val (h ! element) else minValue) rowNode)
              (head matrix) INT_MAX
      in if minValue < 0 then
           fold (\<lambda>rowNode. fold (\<lambda>element h. set_value h element (wrap (val (h ! element) - minValue)))
                  rowNode)
             (head matrix) h
         else h)"

definition SubtractRowMinima :: "heap \<Rightarrow> Matrix \<Rightarrow> heap" where
  "SubtractRowMinima h matrix =
     fold (\<lambda>rowNode h.
            let minRowValue =
                  fold (\<lambda>element minRowValue.
                         if val (h ! element) < minRowValue then val (h ! element)
                         else minRowValue) rowNode INT_MAX
            in fold (\<lambda>element h. set_value h element (wrap (val (h ! element) - minRowValue)))
                 rowNode h)
       (head matrix) h"

definition SubtractColumnMinima :: "heap \<Rightarrow> Matrix \<Rightarrow> heap" where
  "SubtractColumnMinima h matrix =
     fold (\<lambda>col h.
            let minColValue =
                  fold (\<lambda>rowNode minColValue.
                         case GetElementCol (Some rowNode) (int col) of
                           None \<Rightarrow> minColValue
                         | Some element \<Rightarrow>
                             if val (h ! element) < minColValue then val (h ! element)
                             else minColValue)
                    (head matrix) INT_MAX
            in fold (\<lambda>rowNode h.
                      case GetElementCol (Some rowNode) (int col) of
                        None \<Rightarrow> h
                      | Some element \<Rightarrow> set_value h element (wrap (val (h ! element) - minColValue)))
                 (head matrix) h)
       [0..<nat (width matrix)] h"

text \<open>
  \<^verbatim>\<open>IsOptimalSolution\<close>. The two nested loops walk the row nodes and their cells;
  \<open>rowIdx\<close> is what \<^verbatim>\<open>GetRowIndex\<close> returns for the current node (its position) and
  \<open>colIdx\<close> is the cell's \<open>column\<close> field.
\<close>

fun optimal_scan_row ::
  "heap \<Rightarrow> nat \<Rightarrow> addr list \<Rightarrow> int list \<times> int list \<Rightarrow> int list \<times> int list"
where
  "optimal_scan_row h rowIdx [] cov = cov"
| "optimal_scan_row h rowIdx (element # rest) (coveredRows, coveredCols) =
     optimal_scan_row h rowIdx rest
       (let colIdx = nat (column (h ! element)) in
        if val (h ! element) = 0 \<and> coveredRows ! rowIdx = 0 \<and> coveredCols ! colIdx = 0
        then (coveredRows[rowIdx := 1], coveredCols[colIdx := 1])
        else (coveredRows, coveredCols))"

fun optimal_scan ::
  "heap \<Rightarrow> nat \<Rightarrow> addr list list \<Rightarrow> int list \<times> int list \<Rightarrow> int list \<times> int list"
where
  "optimal_scan h rowIdx [] cov = cov"
| "optimal_scan h rowIdx (rowNode # rest) cov =
     optimal_scan h (Suc rowIdx) rest (optimal_scan_row h rowIdx rowNode cov)"

definition count_covered :: "int list \<Rightarrow> int \<Rightarrow> int" where
  "count_covered covered n = int (length (filter (\<lambda>i. covered ! i \<noteq> 0) [0..<nat n]))"

definition IsOptimalSolution :: "heap \<Rightarrow> Matrix \<Rightarrow> bool" where
  "IsOptimalSolution h matrix =
     (let numRows = height matrix;
          numCols = width matrix;
          (coveredRows, coveredCols) =
             optimal_scan h 0 (head matrix)
               (replicate (nat numRows) 0, replicate (nat numCols) 0);
          numCoveredRows = count_covered coveredRows numRows;
          numCoveredCols = count_covered coveredCols numCols
      in numCoveredRows = numRows \<or> numCoveredCols = numCols)"

text \<open>\<^verbatim>\<open>CoverZeros\<close>: the body of the two nested \<^verbatim>\<open>for\<close> loops, then the loops.\<close>

definition cover_cell ::
  "heap \<Rightarrow> Matrix \<Rightarrow> nat \<Rightarrow> nat \<Rightarrow> bool list \<times> bool list \<Rightarrow> bool list \<times> bool list"
where
  "cover_cell h matrix r c cov =
     (let coveredRows = fst cov; coveredCols = snd cov in
      if \<not> coveredRows ! r \<and> \<not> coveredCols ! c \<and> cell_value h matrix r c = 0 then
        let multipleZerosInColumn =
              list_ex (\<lambda>r'. r' \<noteq> r \<and> cell_value h matrix r' c = 0) [0..<nat (height matrix)];
            multipleZerosInRow =
              list_ex (\<lambda>c'. c' \<noteq> c \<and> cell_value h matrix r c' = 0) [0..<nat (width matrix)]
        in if multipleZerosInColumn then (coveredRows, coveredCols[c := True])
           else if multipleZerosInRow then (coveredRows[r := True], coveredCols)
           else (coveredRows, coveredCols)
      else cov)"

definition CoverZeros ::
  "heap \<Rightarrow> Matrix \<Rightarrow> bool list \<times> bool list \<Rightarrow> bool list \<times> bool list"
where
  "CoverZeros h matrix cov =
     fold (\<lambda>r. fold (\<lambda>c. cover_cell h matrix r c) [0..<nat (width matrix)])
       [0..<nat (height matrix)] cov"

text \<open>
  \<^verbatim>\<open>CreateAdditionalZeros\<close>: the minimum over the uncovered cells, then the two
  update passes. Here the C code does test \<^verbatim>\<open>GetElementCol(...) != NULL\<close>.
\<close>

definition for_cells :: "Matrix \<Rightarrow> (nat \<Rightarrow> nat \<Rightarrow> 's \<Rightarrow> 's) \<Rightarrow> 's \<Rightarrow> 's" where
  "for_cells matrix body s =
     fold (\<lambda>r. fold (\<lambda>c. body r c) [0..<nat (width matrix)]) [0..<nat (height matrix)] s"

definition min_uncovered :: "heap \<Rightarrow> Matrix \<Rightarrow> bool list \<Rightarrow> bool list \<Rightarrow> int" where
  "min_uncovered h matrix coveredRows coveredCols =
     for_cells matrix
       (\<lambda>r c minUncovered.
          if \<not> coveredRows ! r \<and> \<not> coveredCols ! c then
            (case GetElementCol (GetRowNode matrix (int r)) (int c) of
               None \<Rightarrow> minUncovered
             | Some element \<Rightarrow>
                 if val (h ! element) < minUncovered then val (h ! element) else minUncovered)
          else minUncovered)
       INT_MAX"

definition CreateAdditionalZeros :: "heap \<Rightarrow> Matrix \<Rightarrow> bool list \<Rightarrow> bool list \<Rightarrow> heap" where
  "CreateAdditionalZeros h matrix coveredRows coveredCols =
     (let minUncovered = min_uncovered h matrix coveredRows coveredCols;
          h1 = for_cells matrix
                 (\<lambda>r c h.
                    if \<not> coveredRows ! r \<and> \<not> coveredCols ! c then
                      (case GetElementCol (GetRowNode matrix (int r)) (int c) of
                         None \<Rightarrow> h
                       | Some element \<Rightarrow> set_value h element (wrap (val (h ! element) - minUncovered)))
                    else h)
                 h
      in for_cells matrix
           (\<lambda>r c h.
              if coveredRows ! r \<and> coveredCols ! c then
                (case GetElementCol (GetRowNode matrix (int r)) (int c) of
                   None \<Rightarrow> h
                 | Some element \<Rightarrow> set_value h element (wrap (val (h ! element) + minUncovered)))
              else h)
           h1)"

text \<open>
  The \<^verbatim>\<open>while (!IsOptimalSolution(matrixCopy))\<close> loop of \<^verbatim>\<open>HungarianAlgorithm\<close>. The C
  loop has no iteration bound; a run that never leaves it is the value \<open>None\<close>. The
  cover arrays are allocated once before the loop and are never cleared inside it.
\<close>

partial_function (option) hungarian_loop ::
  "Matrix \<Rightarrow> heap \<Rightarrow> bool list \<Rightarrow> bool list \<Rightarrow> (heap \<times> bool list \<times> bool list) option"
where
  "hungarian_loop matrixCopy h coveredRows coveredCols =
     (if IsOptimalSolution h matrixCopy then Some (h, coveredRows, coveredCols)
      else
        let cov = CoverZeros h matrixCopy (coveredRows, coveredCols) in
        hungarian_loop matrixCopy
          (CreateAdditionalZeros h matrixCopy (fst cov) (snd cov)) (fst cov) (snd cov))"

declare hungarian_loop.simps [code]

text \<open>
  \<^verbatim>\<open>ExtractFinalSolution\<close>. \<open>xChosenElements\<close> is the written prefix of the
  \<^verbatim>\<open>chosenElements\<close> array (values only); \<open>xCells\<close> records the \<open>row\<close> and \<open>col\<close> of the
  loop at each assignment, with the value.
\<close>

record ExtractState =
  xSum :: int
  xAssignments :: int
  xCoveredCols :: "bool list"
  xChosenElements :: "int list"
  xCells :: "SelectedElement list"

definition extract_row :: "heap \<Rightarrow> Matrix \<Rightarrow> Matrix \<Rightarrow> nat \<Rightarrow> ExtractState \<Rightarrow> ExtractState" where
  "extract_row h originalMatrix finalMatrix r st =
     (case find (\<lambda>c. cell_value h finalMatrix r c = 0 \<and> \<not> xCoveredCols st ! c)
             [0..<nat (width originalMatrix)] of
        None \<Rightarrow> st
      | Some c \<Rightarrow>
          let assignmentValue = cell_value h originalMatrix r c in
          st\<lparr> xSum := wrap (xSum st + assignmentValue),
              xAssignments := xAssignments st + 1,
              xCoveredCols := (xCoveredCols st)[c := True],
              xChosenElements := xChosenElements st @ [assignmentValue],
              xCells := xCells st @ [\<lparr>row = int r, col = int c, selval = assignmentValue\<rparr>] \<rparr>)"

definition ExtractFinalSolution :: "heap \<Rightarrow> Matrix \<Rightarrow> Matrix \<Rightarrow> error + ExtractState" where
  "ExtractFinalSolution h originalMatrix finalMatrix =
     (let numRows = height originalMatrix; numCols = width originalMatrix in
      if calloc_fails numCols \<or> calloc_fails numRows then Inl MEMORY_ALLOCATION_FAILURE
      else Inr (fold (extract_row h originalMatrix finalMatrix) [0..<nat numRows]
                  \<lparr> xSum = 0, xAssignments = 0,
                    xCoveredCols = replicate (nat numCols) False,
                    xChosenElements = [], xCells = [] \<rparr>))"

text \<open>
  \<^verbatim>\<open>HungarianAlgorithm\<close>: the copy and the four reduction passes
  (\<open>reduction_passes\<close>), the loop, the extraction. The function dereferences \<open>matrix\<close> without a null check, so
  the model takes a non-null matrix. The result is \<open>None\<close> when the loop never ends;
  otherwise the final store and the return code with the out-parameters. A failed
  extraction ends the process with \<^verbatim>\<open>exit(resultExtraction)\<close>; it would need a negative
  dimension, which has already made the function return before the loop.
  \<^verbatim>\<open>FreeMatrix(matrixCopy)\<close> releases the copy's cells; the model leaves them in the
  store, unreachable.
\<close>

definition reduction_passes :: "heap \<Rightarrow> Matrix \<Rightarrow> heap \<times> Matrix" where
  "reduction_passes h matrix =
     (let (h0, matrixCopy) = CopyMatrix h matrix;
          h1 = NegateAllElements h0 matrixCopy;
          h2 = MakeMatrixNonnegative h1 matrixCopy;
          h3 = SubtractRowMinima h2 matrixCopy;
          h4 = SubtractColumnMinima h3 matrixCopy
      in (h4, matrixCopy))"

definition HungarianAlgorithm :: "heap \<Rightarrow> Matrix \<Rightarrow> (heap \<times> (error + ExtractState)) option" where
  "HungarianAlgorithm h matrix =
     (let (h4, matrixCopy) = reduction_passes h matrix;
          numRows = height matrixCopy;
          numCols = width matrixCopy
      in if calloc_fails numRows then Some (h4, Inl MEMORY_ALLOCATION_FAILURE)
         else if calloc_fails numCols then Some (h4, Inl MEMORY_ALLOCATION_FAILURE)
         else
           case hungarian_loop matrixCopy h4
                  (replicate (nat numRows) False) (replicate (nat numCols) False) of
             None \<Rightarrow> None
           | Some (h5, coveredRows, coveredCols) \<Rightarrow>
               Some (h5, ExtractFinalSolution h5 matrix matrixCopy))"

section \<open>Predicates and invariants\<close>

text \<open>
  What the specification asks of a returned selection: pairwise-distinct rows,
  pairwise-distinct columns, at most \<open>min(W, H)\<close> elements.
\<close>

definition selection_ok :: "Matrix \<Rightarrow> SelectedElement list \<Rightarrow> bool" where
  "selection_ok matrix sel =
     (distinct (map row sel) \<and> distinct (map col sel) \<and>
      int (length sel) \<le> min (width matrix) (height matrix))"

text \<open>
  The invariant of the outer loop of \<^verbatim>\<open>GreedyAlgorithm\<close> on a matrix of width \<open>w\<close>,
  before the row \<open>ri\<close>: the chosen cells lie in distinct earlier rows and in distinct
  columns that are marked used, and the three outputs describe them.
\<close>

definition greedy_inv :: "int \<Rightarrow> nat \<Rightarrow> GreedyState \<Rightarrow> bool" where
  "greedy_inv w ri st =
     (length (gUsedColumns st) = nat w \<and>
      distinct (map row (gCells st)) \<and> distinct (map col (gCells st)) \<and>
      list_all (\<lambda>e. 0 \<le> row e \<and> row e < int ri \<and> 0 \<le> col e \<and> col e < w \<and>
                    gUsedColumns st ! nat (col e) \<noteq> 0) (gCells st) \<and>
      gCurrentSelectionSize st = int (length (gCells st)) \<and>
      gMaxSelection st = map selval (gCells st) \<and>
      gMaxSum st = wrap (sum_list (map selval (gCells st))))"

text \<open>
  The invariant of \<open>usedColumns\<close> on entry to \<^verbatim>\<open>Explore\<close> at \<open>currentRow\<close>: the non-zero
  entries are exactly the numbers \<open>1 .. currentRow\<close> (row index plus one), each in one
  column.
\<close>

definition cols_inv :: "Matrix \<Rightarrow> nat \<Rightarrow> int list \<Rightarrow> bool" where
  "cols_inv matrix currentRow uC =
     (length uC = nat (width matrix) \<and>
      (\<forall>c < length uC. uC ! c \<noteq> 0 \<longrightarrow> 1 \<le> uC ! c \<and> uC ! c \<le> int currentRow) \<and>
      (\<forall>c < length uC. \<forall>c' < length uC. uC ! c \<noteq> 0 \<longrightarrow> uC ! c = uC ! c' \<longrightarrow> c = c') \<and>
      (\<forall>k. 1 \<le> k \<and> k \<le> int currentRow \<longrightarrow> (\<exists>c < length uC. uC ! c = k)))"

text \<open>The snapshot held in \<open>selectionValues\<close> and \<open>selectionCount\<close> is a valid selection.\<close>

definition snapshot_ok :: "Matrix \<Rightarrow> ExploreParams \<Rightarrow> bool" where
  "snapshot_ok matrix params =
     (selection_ok matrix (selectionValues params) \<and>
      selectionCount params = int (length (selectionValues params)))"

text \<open>
  \<open>heap_frame n h h'\<close>: the store \<open>h'\<close> has the cells of \<open>h\<close>, those at addresses below
  \<open>n\<close> unchanged and all with their \<open>column\<close> field unchanged (only \<open>value\<close> fields at
  addresses from \<open>n\<close> on may differ). \<open>cells_above n matrix\<close>: every cell of the matrix
  has an address from \<open>n\<close> on.
\<close>

definition heap_frame :: "nat \<Rightarrow> heap \<Rightarrow> heap \<Rightarrow> bool" where
  "heap_frame n h h' =
     (length h' = length h \<and> (\<forall>a < n. h' ! a = h ! a) \<and>
      (\<forall>a. column (h' ! a) = column (h ! a)))"

definition cells_above :: "nat \<Rightarrow> Matrix \<Rightarrow> bool" where
  "cells_above n matrix = list_all (list_all (\<lambda>a. n \<le> a)) (head matrix)"

text \<open>\<open>copied h h' a a'\<close>: the cell \<open>a'\<close> of \<open>h'\<close> is a new cell holding the content of the cell \<open>a\<close> of \<open>h\<close>.\<close>

definition copied :: "heap \<Rightarrow> heap \<Rightarrow> addr \<Rightarrow> addr \<Rightarrow> bool" where
  "copied h h' a a' =
     (length h \<le> a' \<and> a' < length h' \<and>
      val (h' ! a') = val (h ! a) \<and> column (h' ! a') = column (h ! a))"

text \<open>
  The invariant of the row loop of \<^verbatim>\<open>ExtractFinalSolution\<close> before the row \<open>r\<close>, for a
  matrix of width \<open>w\<close>.
\<close>

definition extract_inv :: "int \<Rightarrow> nat \<Rightarrow> ExtractState \<Rightarrow> bool" where
  "extract_inv w r st =
     (length (xCoveredCols st) = nat w \<and>
      distinct (map row (xCells st)) \<and> distinct (map col (xCells st)) \<and>
      list_all (\<lambda>e. 0 \<le> row e \<and> row e < int r \<and> 0 \<le> col e \<and> col e < w \<and>
                    xCoveredCols st ! nat (col e)) (xCells st) \<and>
      xAssignments st = int (length (xCells st)) \<and>
      xChosenElements st = map selval (xCells st) \<and>
      xSum st = wrap (sum_list (map selval (xCells st))))"


text \<open>
  The selections \<^verbatim>\<open>Explore\<close> enumerates. A list \<open>cs\<close> of columns stands for the cells
  \<open>(r, cs ! 0), (r + 1, cs ! 1), ...\<close>; \<open>path_sum\<close> adds their values up.
  \<open>completions matrix r used\<close> are the ways to give every row from \<open>r\<close> on a column of
  its own outside \<open>used\<close>; \<open>assignments matrix\<close> are the selections with one cell in
  every row and pairwise-distinct columns (there is none when \<open>H > W\<close>). \<open>used_set\<close> is
  the set of columns marked in \<open>usedColumns\<close>.
\<close>

fun path_sum :: "heap \<Rightarrow> Matrix \<Rightarrow> nat \<Rightarrow> nat list \<Rightarrow> int" where
  "path_sum h matrix r [] = 0"
| "path_sum h matrix r (c # cs) = cell_value h matrix r c + path_sum h matrix (Suc r) cs"

definition completions :: "Matrix \<Rightarrow> nat \<Rightarrow> nat set \<Rightarrow> nat list set" where
  "completions matrix r used =
     {cs. length cs = nat (height matrix) - r \<and> distinct cs \<and>
          set cs \<subseteq> {..<nat (width matrix)} - used}"

definition assignments :: "Matrix \<Rightarrow> nat list set" where
  "assignments matrix = completions matrix 0 {}"

definition used_set :: "ExploreParams \<Rightarrow> nat set" where
  "used_set params = {c. c < length (usedColumns params) \<and> usedColumns params ! c \<noteq> 0}"

text \<open>
  The invariant of the outer loop of \<^verbatim>\<open>GreedyAlgorithm\<close> when every row so far has
  found a cell: the chosen cells are one per earlier row, in row order, the used
  columns are theirs, and each recorded value is the value of its cell.
\<close>

definition greedy_full :: "heap \<Rightarrow> Matrix \<Rightarrow> nat \<Rightarrow> GreedyState \<Rightarrow> bool" where
  "greedy_full h matrix ri st =
     (greedy_inv (width matrix) ri st \<and>
      length (gUsedRows st) = nat (height matrix) \<and>
      (\<forall>r' < nat (height matrix). ri \<le> r' \<longrightarrow> gUsedRows st ! r' = 0) \<and>
      map row (gCells st) = map int [0..<ri] \<and>
      (\<forall>c < nat (width matrix). gUsedColumns st ! c \<noteq> 0 \<longrightarrow> int c \<in> col ` set (gCells st)) \<and>
      list_all (\<lambda>e. selval e = cell_value h matrix (nat (row e)) (nat (col e))) (gCells st))"

section \<open>Concrete matrices\<close>

text \<open>
  The 2-by-1 matrix with rows \<open>[1]\<close> and \<open>[2]\<close>, the 1-by-2 matrix \<open>[1, 5]\<close>, the 1-by-1
  matrix \<open>[-5]\<close> and the 2-by-2 matrix with rows \<open>[1, 2]\<close> and \<open>[3, 4]\<close>, each laid out in
  a store of its own as \<^verbatim>\<open>CreateMatrix\<close> and the loader leave it.
\<close>

definition heap_2x1 :: heap where
  "heap_2x1 = [\<lparr>val = 1, column = 0\<rparr>, \<lparr>val = 2, column = 0\<rparr>]"

definition matrix_2x1 :: Matrix where
  "matrix_2x1 = \<lparr>head = [[0], [1]], width = 1, height = 2\<rparr>"

definition heap_1x2 :: heap where
  "heap_1x2 = [\<lparr>val = 1, column = 0\<rparr>, \<lparr>val = 5, column = 1\<rparr>]"

definition matrix_1x2 :: Matrix where
  "matrix_1x2 = \<lparr>head = [[0, 1]], width = 2, height = 1\<rparr>"

definition heap_1x1 :: heap where
  "heap_1x1 = [\<lparr>val = - 5, column = 0\<rparr>]"

definition matrix_1x1 :: Matrix where
  "matrix_1x1 = \<lparr>head = [[0]], width = 1, height = 1\<rparr>"

definition heap_2x2 :: heap where
  "heap_2x2 = [\<lparr>val = 1, column = 0\<rparr>, \<lparr>val = 2, column = 1\<rparr>,
               \<lparr>val = 3, column = 0\<rparr>, \<lparr>val = 4, column = 1\<rparr>]"

definition matrix_2x2 :: Matrix where
  "matrix_2x2 = \<lparr>head = [[0, 1], [2, 3]], width = 2, height = 2\<rparr>"

text \<open>
  A matrix of width 1 whose only row has been removed (\<^verbatim>\<open>DeleteRow\<close> on a 1-by-1
  matrix leaves \<open>height = 0\<close> and an empty row list).
\<close>

definition matrix_0x1 :: Matrix where
  "matrix_0x1 = \<lparr>head = [], width = 1, height = 0\<rparr>"

text \<open>
  The 3-by-3 matrix with rows \<open>[0, 0, 0]\<close>, \<open>[0, 0, 0]\<close>, \<open>[0, 1, 0]\<close>; the store after
  \<^verbatim>\<open>CopyMatrix\<close> and the four reduction passes (the copy's cells are the addresses 9 to
  17, with rows \<open>[0, 0, 0]\<close>, \<open>[0, 0, 0]\<close>, \<open>[1, 0, 1]\<close>); and the copy.
\<close>

definition heap_3x3 :: heap where
  "heap_3x3 =
     [\<lparr>val = 0, column = 0\<rparr>, \<lparr>val = 0, column = 1\<rparr>, \<lparr>val = 0, column = 2\<rparr>,
      \<lparr>val = 0, column = 0\<rparr>, \<lparr>val = 0, column = 1\<rparr>, \<lparr>val = 0, column = 2\<rparr>,
      \<lparr>val = 0, column = 0\<rparr>, \<lparr>val = 1, column = 1\<rparr>, \<lparr>val = 0, column = 2\<rparr>]"

definition matrix_3x3 :: Matrix where
  "matrix_3x3 = \<lparr>head = [[0, 1, 2], [3, 4, 5], [6, 7, 8]], width = 3, height = 3\<rparr>"

definition reduced_3x3 :: heap where
  "reduced_3x3 = heap_3x3 @
     [\<lparr>val = 0, column = 0\<rparr>, \<lparr>val = 0, column = 1\<rparr>, \<lparr>val = 0, column = 2\<rparr>,
      \<lparr>val = 0, column = 0\<rparr>, \<lparr>val = 0, column = 1\<rparr>, \<lparr>val = 0, column = 2\<rparr>,
      \<lparr>val = 1, column = 0\<rparr>, \<lparr>val = 0, column = 1\<rparr>, \<lparr>val = 1, column = 2\<rparr>]"

definition copy_3x3 :: Matrix where
  "copy_3x3 = \<lparr>head = [[9, 10, 11], [12, 13, 14], [15, 16, 17]], width = 3, height = 3\<rparr>"

text \<open>
  The 3-by-3 matrix with rows \<open>[2, 2, 3]\<close>, \<open>[3, 0, 3]\<close>, \<open>[3, 0, 2]\<close> (with
  \<open>matrix_3x3\<close>). On it the second run of \<^verbatim>\<open>CreateAdditionalZeros\<close> finds no uncovered
  cell, so \<open>minUncovered\<close> is still \<^verbatim>\<open>INT_MAX\<close> when it is added to the doubly covered
  cells, and the sums wrap.
\<close>

definition heap_3x3_overflow :: heap where
  "heap_3x3_overflow =
     [\<lparr>val = 2, column = 0\<rparr>, \<lparr>val = 2, column = 1\<rparr>, \<lparr>val = 3, column = 2\<rparr>,
      \<lparr>val = 3, column = 0\<rparr>, \<lparr>val = 0, column = 1\<rparr>, \<lparr>val = 3, column = 2\<rparr>,
      \<lparr>val = 3, column = 0\<rparr>, \<lparr>val = 0, column = 1\<rparr>, \<lparr>val = 2, column = 2\<rparr>]"

text \<open>The 1-by-1 matrix whose only cell holds \<^verbatim>\<open>INT_MIN\<close> (with \<open>matrix_1x1\<close>).\<close>

definition heap_int_min :: heap where
  "heap_int_min = [\<lparr>val = INT_MIN, column = 0\<rparr>]"

text \<open>
  A store holding the 1-by-1 matrix \<open>[5]\<close> (cell 0, with \<open>matrix_1x1\<close>) and a second
  1-by-1 matrix \<open>[1]\<close> (cell 1), which has no zero.
\<close>

definition heap_no_zero :: heap where
  "heap_no_zero = [\<lparr>val = 5, column = 0\<rparr>, \<lparr>val = 1, column = 0\<rparr>]"

definition final_no_zero :: Matrix where
  "final_no_zero = \<lparr>head = [[1]], width = 1, height = 1\<rparr>"

section \<open>The wrap-around\<close>

text \<open>
  \<open>wrap\<close> lands in the \<^verbatim>\<open>int\<close> range, leaves the numbers of that range alone, and a
  running sum that is wrapped at every step is the wrapped exact sum.
\<close>

lemma wrap_range: "int_range (wrap x)"
  unfolding wrap_def int_range_def INT_MIN_def INT_MAX_def
  using pos_mod_bound[of 4294967296 "x + 2147483648"] pos_mod_sign[of 4294967296 "x + 2147483648"]
  by linarith

lemma wrap_id: "int_range x \<Longrightarrow> wrap x = x"
  unfolding wrap_def int_range_def INT_MIN_def INT_MAX_def
  by simp

lemma wrap_zero: "wrap 0 = 0"
  by (simp add: wrap_def)

lemma wrap_add_left: "wrap (wrap a + b) = wrap (a + b)"
proof -
  define x where "x = (a + 2147483648) mod 4294967296"
  have "wrap (wrap a + b) = (x - 2147483648 + b + 2147483648) mod 4294967296 - 2147483648"
    by (simp add: wrap_def x_def)
  also have "x - 2147483648 + b + 2147483648 = x + b"
    by simp
  also have "(x + b) mod 4294967296 = (a + 2147483648 + b) mod 4294967296"
    unfolding x_def by (rule mod_add_left_eq)
  also have "a + 2147483648 + b = a + b + 2147483648"
    by simp
  finally show ?thesis
    by (simp add: wrap_def)
qed

section \<open>The solvers on the concrete matrices\<close>

lemma examples_valid:
  "valid_matrix heap_2x1 matrix_2x1" "valid_matrix heap_1x2 matrix_1x2"
  "valid_matrix heap_1x1 matrix_1x1" "valid_matrix heap_2x2 matrix_2x2"
  "valid_matrix heap_3x3 matrix_3x3"
  by code_simp+

lemma backtrack_1x1_negative:
  "BacktrackAlgorithm heap_1x1 (Some matrix_1x1) =
     Inr \<lparr>maxSum = 0, usedRows = [0], usedColumns = [0], selectionCount = 0,
          selectionValues = []\<rparr>"
  by code_simp

lemma hungarian_2x2:
  "HungarianAlgorithm heap_2x2 matrix_2x2 =
     Some (heap_2x2 @ [\<lparr>val = 0, column = 0\<rparr>, \<lparr>val = 0, column = 1\<rparr>,
                       \<lparr>val = 0, column = 0\<rparr>, \<lparr>val = 0, column = 1\<rparr>],
           Inr \<lparr>xSum = 5, xAssignments = 2, xCoveredCols = [True, True],
                xChosenElements = [1, 4],
                xCells = [\<lparr>row = 0, col = 0, selval = 1\<rparr>, \<lparr>row = 1, col = 1, selval = 4\<rparr>]\<rparr>)"
  by code_simp

text \<open>
  With the wrap-around the solver leaves its loop on \<open>heap_3x3_overflow\<close> after three
  rounds (the copy ends as \<open>[1, -2, 0]\<close>, \<open>[0, 0, 0]\<close>, \<open>[0, 0, 1]\<close>) and returns the
  sum 6.
\<close>

lemma hungarian_3x3_overflow:
  "map_option (\<lambda>(h', res). (map val (drop 9 h'), map_sum id (\<lambda>st. (xSum st, xChosenElements st)) res))
     (HungarianAlgorithm heap_3x3_overflow matrix_3x3) =
   Some ([1, - 2, 0, 0, 0, 0, 0, 0, 1], Inr (6, [3, 3, 0]))"
  by code_simp

text \<open>
  \<^verbatim>\<open>ExtractFinalSolution\<close> has no completeness test of its own: on a final matrix
  without a zero, which \<^verbatim>\<open>IsOptimalSolution\<close> rejects and the solver therefore never
  hands to it, it returns \<^verbatim>\<open>SUCCESS\<close> with an empty selection.
\<close>

lemma extraction_without_guard:
  "\<not> IsOptimalSolution heap_no_zero final_no_zero \<and>
   ExtractFinalSolution heap_no_zero matrix_1x1 final_no_zero =
     Inr \<lparr>xSum = 0, xAssignments = 0, xCoveredCols = [False], xChosenElements = [],
          xCells = []\<rparr>"
  by code_simp

lemma backtrack_2x2:
  "BacktrackAlgorithm heap_2x2 (Some matrix_2x2) =
     Inr \<lparr>maxSum = 5, usedRows = [0, 0], usedColumns = [0, 0], selectionCount = 2,
          selectionValues = [\<lparr>row = 0, col = 0, selval = 1\<rparr>, \<lparr>row = 1, col = 1, selval = 4\<rparr>]\<rparr>"
  by code_simp

text \<open>
  A state of the loop that is not optimal and that one more iteration leaves as it is
  keeps the loop running for ever.
\<close>

lemma hungarian_loop_returns_unstuck:
  assumes ret: "hungarian_loop m' h' cr' cc' = Some y"
    and "\<not> IsOptimalSolution h m"
    and "CoverZeros h m (cr, cc) = (cr, cc)"
    and "CreateAdditionalZeros h m cr cc = h"
  shows "(m', h', cr', cc') \<noteq> (m, h, cr, cc)"
proof (rule hungarian_loop.raw_induct
         [where P = "\<lambda>m' h' cr' cc' y. (m', h', cr', cc') \<noteq> (m, h, cr, cc)", OF _ ret])
  fix loop :: "Matrix \<Rightarrow> heap \<Rightarrow> bool list \<Rightarrow> bool list \<Rightarrow> (heap \<times> bool list \<times> bool list) option"
  fix m1 h1 cr1 cc1 y1
  assume IH: "\<And>m2 h2 cr2 cc2 y2. loop m2 h2 cr2 cc2 = Some y2 \<Longrightarrow>
                 (m2, h2, cr2, cc2) \<noteq> (m, h, cr, cc)"
    and step: "(if IsOptimalSolution h1 m1 then Some (h1, cr1, cc1)
                else let cov = CoverZeros h1 m1 (cr1, cc1) in
                  loop m1 (CreateAdditionalZeros h1 m1 (fst cov) (snd cov)) (fst cov) (snd cov))
               = Some y1"
  show "(m1, h1, cr1, cc1) \<noteq> (m, h, cr, cc)"
  proof
    assume "(m1, h1, cr1, cc1) = (m, h, cr, cc)"
    with step assms(2-4) have "loop m h cr cc = Some y1"
      by simp
    from IH[OF this] show False
      by simp
  qed
qed

lemma hungarian_loop_stuck:
  assumes "\<not> IsOptimalSolution h m"
    and "CoverZeros h m (cr, cc) = (cr, cc)"
    and "CreateAdditionalZeros h m cr cc = h"
  shows "hungarian_loop m h cr cc = None"
proof (cases "hungarian_loop m h cr cc")
  case None
  then show ?thesis .
next
  case (Some y)
  from hungarian_loop_returns_unstuck[OF Some assms] show ?thesis
    by simp
qed

lemma reduction_3x3: "reduction_passes heap_3x3 matrix_3x3 = (reduced_3x3, copy_3x3)"
  by code_simp

lemma reduced_3x3_not_optimal: "\<not> IsOptimalSolution reduced_3x3 copy_3x3"
  by code_simp

lemma reduced_3x3_first_cover:
  "CoverZeros reduced_3x3 copy_3x3 ([False, False, False], [False, False, False]) =
     ([False, False, False], [True, True, True])"
  by code_simp

lemma reduced_3x3_next_cover:
  "CoverZeros reduced_3x3 copy_3x3 ([False, False, False], [True, True, True]) =
     ([False, False, False], [True, True, True])"
  by code_simp

lemma reduced_3x3_zeros:
  "CreateAdditionalZeros reduced_3x3 copy_3x3 [False, False, False] [True, True, True] =
     reduced_3x3"
  by code_simp

lemma loop_3x3_diverges:
  "hungarian_loop copy_3x3 reduced_3x3 [False, False, False] [False, False, False] = None"
proof -
  have "hungarian_loop copy_3x3 reduced_3x3 [False, False, False] [False, False, False] =
        hungarian_loop copy_3x3 reduced_3x3 [False, False, False] [True, True, True]"
    by (subst hungarian_loop.simps)
       (simp add: reduced_3x3_not_optimal reduced_3x3_first_cover reduced_3x3_zeros)
  also have "\<dots> = None"
    by (rule hungarian_loop_stuck
          [OF reduced_3x3_not_optimal reduced_3x3_next_cover reduced_3x3_zeros])
  finally show ?thesis .
qed

section \<open>Properties of the Greedy solver\<close>

lemma fold_invariant:
  assumes "Q s" and "\<And>x s. x \<in> set xs \<Longrightarrow> Q s \<Longrightarrow> Q (f x s)"
  shows "Q (fold f xs s)"
  using assms by (induction xs arbitrary: s) auto

lemma distinct_bounded_length:
  fixes f :: "'a \<Rightarrow> int"
  assumes "distinct (map f xs)" and "\<forall>x \<in> set xs. 0 \<le> f x \<and> f x < n" and "0 \<le> n"
  shows "int (length xs) \<le> n"
proof -
  have "length xs = card (set (map f xs))"
    using assms(1) by (metis distinct_card length_map)
  also have "\<dots> \<le> card {0..<n}"
    using assms(2) by (intro card_mono) auto
  finally show ?thesis using assms(3) by simp
qed

lemma valid_row_column:
  assumes "valid_row h w r" and "a \<in> set r"
  shows "0 \<le> column (h ! a) \<and> column (h ! a) < w"
proof -
  from assms(2) have "column (h ! a) \<in> set (map (\<lambda>a. column (h ! a)) r)"
    by auto
  with assms(1) have "column (h ! a) \<in> set (map int [0..<nat w])"
    by (simp add: valid_row_def)
  then show ?thesis by auto
qed

lemma greedy_scan_result:
  "greedy_scan h uR uC ri as (mv, me) = (mv', me') \<Longrightarrow>
     (mv' = mv \<and> me' = me) \<or>
     (\<exists>a \<in> set as. me' = Some a \<and> mv' = val (h ! a) \<and> mv < val (h ! a) \<and>
        uR ! ri = 0 \<and> uC ! nat (column (h ! a)) = 0)"
proof (induction as arbitrary: mv me)
  case Nil
  then show ?case by simp
next
  case (Cons a as)
  show ?case
  proof (cases "uR ! ri = 0 \<and> uC ! nat (column (h ! a)) = 0 \<and> val (h ! a) > mv")
    case True
    with Cons.prems have "greedy_scan h uR uC ri as (val (h ! a), Some a) = (mv', me')"
      by simp
    from Cons.IH[OF this] True show ?thesis
      by auto
  next
    case False
    with Cons.prems have "greedy_scan h uR uC ri as (mv, me) = (mv', me')"
      by auto
    from Cons.IH[OF this] show ?thesis
      by auto
  qed
qed

lemma greedy_scan_Some:
  assumes "snd (greedy_scan h uR uC ri r (INT_MIN, None)) = Some a"
  shows "a \<in> set r \<and> INT_MIN < val (h ! a) \<and> uR ! ri = 0 \<and> uC ! nat (column (h ! a)) = 0"
proof -
  obtain mv where "greedy_scan h uR uC ri r (INT_MIN, None) = (mv, Some a)"
    using assms by (cases "greedy_scan h uR uC ri r (INT_MIN, None)") auto
  from greedy_scan_result[OF this] show ?thesis
    by auto
qed

lemma greedy_select_inv:
  assumes inv: "greedy_inv w ri st" and row: "valid_row h w r"
    and sel: "snd (greedy_scan h (gUsedRows st) (gUsedColumns st) ri r (INT_MIN, None)) = Some a"
  shows "greedy_inv w (Suc ri) (greedy_select h ri a st)"
proof -
  let ?c = "column (h ! a)"
  from greedy_scan_Some[OF sel] have a: "a \<in> set r" and free: "gUsedColumns st ! nat ?c = 0"
    by auto
  from valid_row_column[OF row a] have c: "0 \<le> ?c" "?c < w" by auto
  from inv have len: "length (gUsedColumns st) = nat w"
    and cells: "\<forall>e \<in> set (gCells st). 0 \<le> row e \<and> row e < int ri \<and> 0 \<le> col e \<and> col e < w \<and>
                  gUsedColumns st ! nat (col e) \<noteq> 0"
    by (auto simp: greedy_inv_def list_all_iff)
  from cells free have fresh_col: "?c \<notin> col ` set (gCells st)"
    by auto
  from cells have fresh_row: "int ri \<notin> row ` set (gCells st)"
    by auto
  have upd: "(gUsedColumns st)[nat ?c := 1] ! nat (col e) \<noteq> 0" if "e \<in> set (gCells st)" for e
  proof -
    from c len have i: "nat ?c < length (gUsedColumns st)"
      by simp
    from cells that have "gUsedColumns st ! nat (col e) \<noteq> 0"
      by auto
    then show ?thesis
      by (simp add: nth_list_update[OF i])
  qed
  have new: "(gUsedColumns st)[nat ?c := 1] ! nat ?c \<noteq> 0"
    using c len by simp
  show ?thesis
    using inv fresh_col fresh_row upd new c cells
    by (auto simp: greedy_inv_def greedy_select_def list_all_iff wrap_add_left)
qed

lemma greedy_rows_inv:
  assumes "greedy_inv w ri st" and "list_all (valid_row h w) rs"
  shows "greedy_inv w (ri + length rs) (greedy_rows h rs ri st)"
  using assms
proof (induction rs arbitrary: ri st)
  case Nil
  then show ?case by simp
next
  case (Cons r rs)
  from Cons.prems have row: "valid_row h w r" and rest: "list_all (valid_row h w) rs"
    by auto
  show ?case
  proof (cases "snd (greedy_scan h (gUsedRows st) (gUsedColumns st) ri r (INT_MIN, None))")
    case None
    from Cons.prems(1) have "greedy_inv w (Suc ri) st"
      by (auto simp: greedy_inv_def list_all_iff)
    from Cons.IH[OF this rest] None show ?thesis by simp
  next
    case (Some a)
    from Cons.IH[OF greedy_select_inv[OF Cons.prems(1) row Some] rest] Some
    show ?thesis by simp
  qed
qed

lemma greedy_inv_selection_ok:
  assumes "greedy_inv (width m) (nat (height m)) st" and "0 < height m" and "0 < width m"
  shows "selection_ok m (gCells st)"
proof -
  from assms have rows: "distinct (map row (gCells st))"
    "\<forall>e \<in> set (gCells st). 0 \<le> row e \<and> row e < height m"
    and cols: "distinct (map col (gCells st))"
    "\<forall>e \<in> set (gCells st). 0 \<le> col e \<and> col e < width m"
    by (auto simp: greedy_inv_def list_all_iff)
  from distinct_bounded_length[OF rows] distinct_bounded_length[OF cols] rows(1) cols(1) assms(2,3)
  show ?thesis
    by (simp add: selection_ok_def)
qed

lemma greedy_selection_ok:
  assumes "valid_matrix h m" and "GreedyAlgorithm h (Some m) = Inr st"
  shows "selection_ok m (gCells st) \<and> gCurrentSelectionSize st = int (length (gCells st)) \<and>
         gMaxSelection st = map selval (gCells st) \<and>
         gMaxSum st = wrap (sum_list (gMaxSelection st))"
proof -
  from assms have st: "st = greedy_rows h (head m) 0 (greedy_init m)"
    by (auto simp: GreedyAlgorithm_def split: if_splits)
  have "greedy_inv (width m) 0 (greedy_init m)"
    by (simp add: greedy_inv_def greedy_init_def wrap_zero)
  from greedy_rows_inv[OF this, of h "head m"] assms(1) st
  have inv: "greedy_inv (width m) (nat (height m)) st"
    by (simp add: valid_matrix_def)
  from greedy_inv_selection_ok[OF inv] assms(1) inv show ?thesis
    by (simp add: valid_matrix_def greedy_inv_def)
qed

lemma greedy_scan_all_min:
  assumes "\<forall>a \<in> set r. uC ! nat (column (h ! a)) = 0 \<longrightarrow> val (h ! a) = INT_MIN"
  shows "snd (greedy_scan h uR uC ri r (INT_MIN, None)) = None"
proof (cases "snd (greedy_scan h uR uC ri r (INT_MIN, None))")
  case None
  then show ?thesis .
next
  case (Some a)
  from greedy_scan_Some[OF Some] assms show ?thesis
    by auto
qed

lemma greedy_rows_no_min:
  assumes "INT_MIN \<notin> set (gMaxSelection st)" "\<forall>e \<in> set (gCells st). selval e \<noteq> INT_MIN"
  shows "INT_MIN \<notin> set (gMaxSelection (greedy_rows h rs ri st)) \<and>
         (\<forall>e \<in> set (gCells (greedy_rows h rs ri st)). selval e \<noteq> INT_MIN)"
  using assms
proof (induction rs arbitrary: ri st)
  case Nil
  then show ?case by simp
next
  case (Cons r rs)
  show ?case
  proof (cases "snd (greedy_scan h (gUsedRows st) (gUsedColumns st) ri r (INT_MIN, None))")
    case None
    with Cons show ?thesis by simp
  next
    case (Some a)
    from greedy_scan_Some[OF Some] have "INT_MIN < val (h ! a)" by simp
    with Cons.prems have
      "INT_MIN \<notin> set (gMaxSelection (greedy_select h ri a st))"
      "\<forall>e \<in> set (gCells (greedy_select h ri a st)). selval e \<noteq> INT_MIN"
      by (auto simp: greedy_select_def)
    from Cons.IH[OF this] Some show ?thesis by simp
  qed
qed

section \<open>Properties of the Backtrack solver\<close>

lemma copy_step_used:
  "usedRows (copy_step h m i p) = usedRows p \<and> usedColumns (copy_step h m i p) = usedColumns p"
  by (simp add: copy_step_def Let_def)

lemma CopySelectedValues_used:
  "usedRows (CopySelectedValues h m p) = usedRows p \<and>
   usedColumns (CopySelectedValues h m p) = usedColumns p"
  unfolding CopySelectedValues_def
  by (rule fold_invariant[where Q = "\<lambda>q. usedRows q = usedRows p \<and> usedColumns q = usedColumns p"])
     (simp_all add: copy_step_used)

lemma CopySelectedValues_maxSum:
  "maxSum (CopySelectedValues h m p) = maxSum p"
  unfolding CopySelectedValues_def
  by (rule fold_invariant[where Q = "\<lambda>q. maxSum q = maxSum p"])
     (simp_all add: copy_step_def Let_def)

text \<open>Backtracking restores the two arrays.\<close>

lemma Explore_used:
  "usedRows (Explore h m r s p) = usedRows p \<and> usedColumns (Explore h m r s p) = usedColumns p"
proof (induction h m r s p rule: Explore.induct)
  case (1 h m r s p)
  show ?case
  proof (cases "int r = height m \<or> height m < int r")
    case True
    then show ?thesis
      by (auto simp: Explore.simps[of h m r s p] CopySelectedValues_used)
  next
    case False
    let ?body = "\<lambda>i p. if usedRows p ! r = 0 \<and> usedColumns p ! i = 0
                       then unmark r i (Explore h m (Suc r) (wrap (s + cell_value h m r i)) (mark r i p))
                       else p"
    have "usedRows (fold ?body [0..<nat (width m)] p) = usedRows p \<and>
          usedColumns (fold ?body [0..<nat (width m)] p) = usedColumns p"
    proof (rule fold_invariant[where Q = "\<lambda>q. usedRows q = usedRows p \<and> usedColumns q = usedColumns p"])
      show "usedRows p = usedRows p \<and> usedColumns p = usedColumns p"
        by simp
    next
      fix i and q :: ExploreParams
      assume i: "i \<in> set [0..<nat (width m)]"
        and q: "usedRows q = usedRows p \<and> usedColumns q = usedColumns p"
      show "usedRows (?body i q) = usedRows p \<and> usedColumns (?body i q) = usedColumns p"
      proof (cases "usedRows q ! r = 0 \<and> usedColumns q ! i = 0")
        case free: True
        from False have "int r \<noteq> height m" "\<not> height m < int r" by auto
        from "1.IH"[OF this i free]
        have "usedRows (Explore h m (Suc r) (wrap (s + cell_value h m r i)) (mark r i q)) = (usedRows q)[r := 1]"
          "usedColumns (Explore h m (Suc r) (wrap (s + cell_value h m r i)) (mark r i q)) = (usedColumns q)[i := int r + 1]"
          by (simp_all add: mark_def)
        with free have "usedRows (?body i q) = (usedRows q)[r := usedRows q ! r]"
          "usedColumns (?body i q) = (usedColumns q)[i := usedColumns q ! i]"
          by (simp_all add: unmark_def)
        with q show ?thesis
          by simp
      next
        case False
        with q show ?thesis by auto
      qed
    qed
    with False show ?thesis
      by (simp add: Explore.simps[of h m r s p])
  qed
qed

lemma copy_step_fold:
  "selectionValues (fold (copy_step h m) is p) =
     selectionValues p @
     map (\<lambda>i. \<lparr>row = int i, col = usedColumns p ! i - 1,
                selval = val (h ! the (GetElementCol (GetRowNode m (int i)) (usedColumns p ! i - 1)))\<rparr>)
       (filter (\<lambda>i. usedColumns p ! i \<noteq> 0) is) \<and>
   selectionCount (fold (copy_step h m) is p) =
     selectionCount p + int (length (filter (\<lambda>i. usedColumns p ! i \<noteq> 0) is))"
proof (induction "is" arbitrary: p)
  case Nil
  then show ?case by simp
next
  case (Cons i "is")
  have u: "usedColumns (copy_step h m i p) = usedColumns p"
    by (simp add: copy_step_used)
  show ?case
    using Cons.IH[of "copy_step h m i p"] unfolding u
    by (simp add: copy_step_def Let_def)
qed

lemma cols_inv_bound:
  assumes "cols_inv m r uC"
  shows "r \<le> length uC"
proof -
  have "{1..int r} \<subseteq> (\<lambda>c. uC ! c) ` {..<length uC}"
  proof
    fix k
    assume "k \<in> {1..int r}"
    then have "1 \<le> k \<and> k \<le> int r" by simp
    with assms obtain c where "c < length uC" "uC ! c = k"
      unfolding cols_inv_def by blast
    then show "k \<in> (\<lambda>c. uC ! c) ` {..<length uC}"
      by auto
  qed
  then have "card {1..int r} \<le> card ((\<lambda>c. uC ! c) ` {..<length uC})"
    by (intro card_mono) auto
  also have "\<dots> \<le> card {..<length uC}"
    by (rule card_image_le) simp
  finally show ?thesis by simp
qed

lemma CopySelectedValues_snapshot:
  assumes inv: "cols_inv m (nat (height m)) (usedColumns p)" and pos: "0 < height m"
  shows "snapshot_ok m (CopySelectedValues h m p)"
proof -
  let ?uC = "usedColumns p"
  let ?H = "nat (height m)"
  let ?idx = "filter (\<lambda>i. ?uC ! i \<noteq> 0) [0..<?H]"
  let ?sel = "selectionValues (CopySelectedValues h m p)"
  from cols_inv_bound[OF inv] have HW: "?H \<le> length ?uC" .
  from inv have W: "length ?uC = nat (width m)"
    by (simp add: cols_inv_def)
  have sel: "?sel = map (\<lambda>i. \<lparr>row = int i, col = ?uC ! i - 1,
                selval = val (h ! the (GetElementCol (GetRowNode m (int i)) (?uC ! i - 1)))\<rparr>) ?idx"
    and cnt: "selectionCount (CopySelectedValues h m p) = int (length ?idx)"
    using copy_step_fold[of h m "[0..<?H]" "p\<lparr>selectionCount := 0, selectionValues := []\<rparr>"]
    by (simp_all add: CopySelectedValues_def)
  have rows: "map row ?sel = map int ?idx"
    by (simp add: sel comp_def)
  have cols: "map col ?sel = map (\<lambda>i. ?uC ! i - 1) ?idx"
    by (simp add: sel comp_def)
  have d1: "distinct (map row ?sel)"
    unfolding rows by (simp add: distinct_map inj_on_def)
  have "inj_on (\<lambda>i. ?uC ! i - 1) (set ?idx)"
  proof (rule inj_onI)
    fix i j
    assume i: "i \<in> set ?idx" and j: "j \<in> set ?idx" and eq: "?uC ! i - 1 = ?uC ! j - 1"
    from i j HW have "i < length ?uC" "j < length ?uC" "?uC ! i \<noteq> 0"
      by auto
    with inv eq show "i = j"
      by (auto simp: cols_inv_def)
  qed
  then have d2: "distinct (map col ?sel)"
    unfolding cols by (simp add: distinct_map)
  have "length ?sel \<le> ?H"
    unfolding sel using length_filter_le[of "\<lambda>i. ?uC ! i \<noteq> 0" "[0..<?H]"] by simp
  with HW W pos have "int (length ?sel) \<le> min (width m) (height m)"
    by auto
  with d1 d2 cnt sel show ?thesis
    by (simp add: snapshot_ok_def selection_ok_def)
qed

lemma cols_inv_mark:
  assumes inv: "cols_inv m r uC" and i: "i < length uC" and free: "uC ! i = 0"
  shows "cols_inv m (Suc r) (uC[i := int r + 1])"
proof -
  let ?uC' = "uC[i := int r + 1]"
  have nth: "?uC' ! c = (if c = i then int r + 1 else uC ! c)" if "c < length uC" for c
    using that i by (simp add: nth_list_update)
  have 1: "length ?uC' = nat (width m)"
    using inv by (simp add: cols_inv_def)
  have 2: "\<forall>c < length ?uC'. ?uC' ! c \<noteq> 0 \<longrightarrow> 1 \<le> ?uC' ! c \<and> ?uC' ! c \<le> int (Suc r)"
    using inv nth by (auto simp: cols_inv_def)
  have old: "uC ! c \<le> int r" if "c < length uC" for c
    using inv that by (cases "uC ! c = 0") (auto simp: cols_inv_def)
  have 3: "\<forall>c < length ?uC'. \<forall>c' < length ?uC'. ?uC' ! c \<noteq> 0 \<longrightarrow> ?uC' ! c = ?uC' ! c' \<longrightarrow> c = c'"
  proof (intro allI impI)
    fix c c'
    assume c: "c < length ?uC'" and c': "c' < length ?uC'"
      and nz: "?uC' ! c \<noteq> 0" and eq: "?uC' ! c = ?uC' ! c'"
    show "c = c'"
    proof (cases "c = i")
      case True
      with eq nth[of c] nth[of c'] c c' old[of c'] show ?thesis
        by (auto split: if_splits)
    next
      case False
      with eq nz nth[of c] nth[of c'] c c' old[of c] inv show ?thesis
        by (auto simp: cols_inv_def split: if_splits)
    qed
  qed
  have 4: "\<forall>k. 1 \<le> k \<and> k \<le> int (Suc r) \<longrightarrow> (\<exists>c < length ?uC'. ?uC' ! c = k)"
  proof (intro allI impI)
    fix k
    assume k: "1 \<le> k \<and> k \<le> int (Suc r)"
    show "\<exists>c < length ?uC'. ?uC' ! c = k"
    proof (cases "k = int r + 1")
      case True
      with i nth[of i] show ?thesis by auto
    next
      case False
      with k inv obtain c where c: "c < length uC" "uC ! c = k"
        by (auto simp: cols_inv_def)
      with k free have "c \<noteq> i" by auto
      with c nth[of c] show ?thesis by auto
    qed
  qed
  from 1 2 3 4 show ?thesis
    unfolding cols_inv_def by blast
qed

lemma Explore_snapshot:
  "cols_inv m r (usedColumns p) \<Longrightarrow> int r \<le> height m \<Longrightarrow> 0 < height m \<Longrightarrow>
   snapshot_ok m p \<Longrightarrow> snapshot_ok m (Explore h m r s p)"
proof (induction h m r s p rule: Explore.induct)
  case (1 h m r s p)
  note inv = "1.prems"(1) and le = "1.prems"(2) and pos = "1.prems"(3) and ok = "1.prems"(4)
  show ?case
  proof (cases "int r = height m")
    case True
    then have r: "nat (height m) = r" by auto
    have "cols_inv m (nat (height m)) (usedColumns (p\<lparr>maxSum := s\<rparr>))"
      using inv r by simp
    from CopySelectedValues_snapshot[OF this pos]
    have "snapshot_ok m (CopySelectedValues h m (p\<lparr>maxSum := s\<rparr>))" .
    with True ok show ?thesis
      by (simp add: Explore.simps[of h m r s p])
  next
    case False
    with le have lt: "int r \<noteq> height m" "\<not> height m < int r" "int (Suc r) \<le> height m"
      by auto
    let ?body = "\<lambda>i p. if usedRows p ! r = 0 \<and> usedColumns p ! i = 0
                       then unmark r i (Explore h m (Suc r) (wrap (s + cell_value h m r i)) (mark r i p))
                       else p"
    have "usedColumns (fold ?body [0..<nat (width m)] p) = usedColumns p \<and>
          snapshot_ok m (fold ?body [0..<nat (width m)] p)"
    proof (rule fold_invariant[where Q = "\<lambda>q. usedColumns q = usedColumns p \<and> snapshot_ok m q"])
      show "usedColumns p = usedColumns p \<and> snapshot_ok m p"
        using ok by simp
    next
      fix i and q :: ExploreParams
      assume i: "i \<in> set [0..<nat (width m)]"
        and q: "usedColumns q = usedColumns p \<and> snapshot_ok m q"
      show "usedColumns (?body i q) = usedColumns p \<and> snapshot_ok m (?body i q)"
      proof (cases "usedRows q ! r = 0 \<and> usedColumns q ! i = 0")
        case free: True
        let ?q1 = "mark r i q"
        let ?q2 = "Explore h m (Suc r) (wrap (s + cell_value h m r i)) ?q1"
        from inv i have ilen: "i < length (usedColumns p)"
          by (simp add: cols_inv_def)
        from cols_inv_mark[OF inv ilen] free q
        have inv1: "cols_inv m (Suc r) (usedColumns ?q1)"
          by (simp add: mark_def)
        from q have ok1: "snapshot_ok m ?q1"
          by (simp add: mark_def snapshot_ok_def)
        from "1.IH"[OF lt(1,2) i free inv1 lt(3) pos ok1]
        have ok2: "snapshot_ok m ?q2" .
        then have ok3: "snapshot_ok m (unmark r i ?q2)"
          by (simp add: unmark_def snapshot_ok_def)
        from Explore_used[of h m "Suc r" "wrap (s + cell_value h m r i)" ?q1]
        have "usedColumns (unmark r i ?q2) = (usedColumns q)[i := usedColumns q ! i]"
          using free by (simp add: unmark_def mark_def)
        with q have "usedColumns (unmark r i ?q2) = usedColumns p"
          by simp
        with ok3 free show ?thesis
          by simp
      next
        case False
        with q show ?thesis by auto
      qed
    qed
    with lt show ?thesis
      by (simp add: Explore.simps[of h m r s p])
  qed
qed

lemma backtrack_selection_ok:
  assumes "valid_matrix h m" and "BacktrackAlgorithm h (Some m) = Inr p"
  shows "selection_ok m (selectionValues p) \<and>
         selectionCount p = int (length (selectionValues p))"
proof -
  from assms have p: "p = Explore h m 0 0 (explore_init m)" and pos: "0 < height m"
    by (auto simp: BacktrackAlgorithm_def valid_matrix_def split: if_splits)
  have inv: "cols_inv m 0 (usedColumns (explore_init m))"
    by (simp add: cols_inv_def explore_init_def)
  have ok: "snapshot_ok m (explore_init m)"
    using assms(1) by (simp add: snapshot_ok_def selection_ok_def explore_init_def valid_matrix_def)
  from Explore_snapshot[OF inv _ pos ok, of h 0] pos p show ?thesis
    by (simp add: snapshot_ok_def)
qed

section \<open>The store under the Hungarian solver\<close>

lemma heap_frame_refl: "heap_frame n h h"
  by (simp add: heap_frame_def)

lemma heap_frame_trans: "heap_frame n h h1 \<Longrightarrow> heap_frame n h1 h2 \<Longrightarrow> heap_frame n h h2"
  by (simp add: heap_frame_def)

lemma heap_frame_set_value: "n \<le> a \<Longrightarrow> heap_frame n h (set_value h a v)"
  by (cases "a < length h")
     (auto simp: heap_frame_def set_value_def nth_list_update list_update_beyond)

lemma heap_frame_fold:
  assumes "\<And>x h1. x \<in> set xs \<Longrightarrow> heap_frame n h1 (f x h1)"
  shows "heap_frame n h (fold f xs h)"
  by (rule fold_invariant[where Q = "heap_frame n h"])
     (auto intro: heap_frame_refl heap_frame_trans assms)

lemma cells_aboveD: "cells_above n m \<Longrightarrow> r \<in> set (head m) \<Longrightarrow> a \<in> set r \<Longrightarrow> n \<le> a"
  by (auto simp: cells_above_def list_all_iff)

lemma GetElementCol_Some_row:
  "GetElementCol (Some r) c = Some a \<Longrightarrow> a \<in> set r"
  by (auto simp: GetElementCol_def split: if_splits)

lemma GetElementCol_GetRowNode_Some:
  "GetElementCol (GetRowNode m r) c = Some a \<Longrightarrow> \<exists>rw \<in> set (head m). a \<in> set rw"
proof -
  assume "GetElementCol (GetRowNode m r) c = Some a"
  then obtain rw where "GetRowNode m r = Some rw" "a \<in> set rw"
    by (cases "GetRowNode m r") (auto simp: GetElementCol_def split: if_splits)
  moreover from this have "rw \<in> set (head m)"
    by (auto simp: GetRowNode_def split: if_splits)
  ultimately show ?thesis
    by blast
qed

lemma heap_frame_row_update:
  assumes "\<And>a. a \<in> set r \<Longrightarrow> n \<le> a"
  shows "heap_frame n h (fold (\<lambda>element h. set_value h element (g element h)) r h)"
  by (rule heap_frame_fold) (auto intro: heap_frame_set_value assms)

lemma NegateAllElements_frame:
  assumes "cells_above n m"
  shows "heap_frame n h (NegateAllElements h m)"
  unfolding NegateAllElements_def
  by (rule heap_frame_fold, rule heap_frame_fold)
     (auto intro: heap_frame_set_value cells_aboveD[OF assms])

lemma MakeMatrixNonnegative_frame:
  assumes "cells_above n m"
  shows "heap_frame n h (MakeMatrixNonnegative h m)"
  unfolding MakeMatrixNonnegative_def Let_def
  by (auto intro!: heap_frame_fold heap_frame_refl heap_frame_set_value cells_aboveD[OF assms])

lemma SubtractRowMinima_frame:
  assumes "cells_above n m"
  shows "heap_frame n h (SubtractRowMinima h m)"
  unfolding SubtractRowMinima_def Let_def
  by (auto intro!: heap_frame_fold heap_frame_refl heap_frame_set_value cells_aboveD[OF assms])

lemma SubtractColumnMinima_frame:
  assumes "cells_above n m"
  shows "heap_frame n h (SubtractColumnMinima h m)"
  unfolding SubtractColumnMinima_def Let_def
  by (auto intro!: heap_frame_fold heap_frame_refl heap_frame_set_value cells_aboveD[OF assms]
        dest: GetElementCol_Some_row split: option.splits)

lemma for_cells_frame:
  assumes "\<And>r c h1. heap_frame n h1 (body r c h1)"
  shows "heap_frame n h (for_cells m body h)"
  unfolding for_cells_def
  by (rule heap_frame_fold, rule heap_frame_fold) (rule assms)

lemma CreateAdditionalZeros_frame:
  assumes "cells_above n m"
  shows "heap_frame n h (CreateAdditionalZeros h m cr cc)"
proof -
  have w: "heap_frame n h1 (case GetElementCol (GetRowNode m (int r)) (int c) of
                              None \<Rightarrow> h1
                            | Some element \<Rightarrow> set_value h1 element (g element h1))" for h1 r c g
    using GetElementCol_GetRowNode_Some[of m "int r" "int c"] cells_aboveD[OF assms]
    by (auto intro: heap_frame_set_value heap_frame_refl split: option.splits)
  show ?thesis
    unfolding CreateAdditionalZeros_def Let_def
    by (rule heap_frame_trans; rule for_cells_frame) (auto intro: w heap_frame_refl)
qed

lemma copied_extend:
  "copied h h1 a a' \<Longrightarrow> copied h (h1 @ ext) a a'"
  by (auto simp: copied_def nth_append)

lemma copied_shift:
  "copied (h @ e1) h2 a a' \<Longrightarrow> a < length h \<Longrightarrow> copied h h2 a a'"
  by (auto simp: copied_def nth_append)

lemma copy_elements_spec:
  assumes "\<forall>a \<in> set r. a < length h" and "copy_elements h r = (h2, new)"
  shows "(\<exists>ext. h2 = h @ ext) \<and> list_all2 (copied h h2) r new"
  using assms
proof (induction r arbitrary: h h2 new)
  case Nil
  then show ?case by simp
next
  case (Cons a rest)
  let ?c = "\<lparr>val = val (h ! a), column = column (h ! a)\<rparr>"
  let ?h1 = "h @ [?c]"
  obtain h3 newRest where rec: "copy_elements ?h1 rest = (h3, newRest)"
    by (cases "copy_elements ?h1 rest") auto
  with Cons.prems(2) have eq: "h2 = h3" "new = length h # newRest"
    by (auto simp: Let_def)
  from Cons.prems(1) have small: "\<forall>a \<in> set rest. a < length ?h1" and a: "a < length h"
    and rest: "\<forall>a \<in> set rest. a < length h"
    by auto
  from Cons.IH[OF small rec] obtain ext where h3: "h3 = ?h1 @ ext"
    and all: "list_all2 (copied ?h1 h3) rest newRest"
    by auto
  have first: "copied h h3 a (length h)"
    by (simp add: copied_def h3 nth_append)
  have "list_all2 (copied h h3) rest newRest"
    by (rule list.rel_mono_strong[OF all]) (use rest in \<open>auto intro: copied_shift\<close>)
  with first h3 eq show ?case
    by auto
qed

lemma copy_rows_spec:
  assumes "\<forall>r \<in> set rows. \<forall>a \<in> set r. a < length h" and "copy_rows h rows = (h', rows')"
  shows "(\<exists>ext. h' = h @ ext) \<and> list_all2 (list_all2 (copied h h')) rows rows'"
  using assms
proof (induction rows arbitrary: h h' rows')
  case Nil
  then show ?case by simp
next
  case (Cons r rest)
  obtain h1 newRow where row: "copy_elements h r = (h1, newRow)"
    by (cases "copy_elements h r") auto
  obtain h2 newRest where rec: "copy_rows h1 rest = (h2, newRest)"
    by (cases "copy_rows h1 rest") auto
  from Cons.prems(2) row rec have eq: "h' = h2" "rows' = newRow # newRest"
    by (auto simp: Let_def)
  from Cons.prems(1) have r: "\<forall>a \<in> set r. a < length h"
    and rest: "\<forall>r \<in> set rest. \<forall>a \<in> set r. a < length h"
    by auto
  from copy_elements_spec[OF r row] obtain e1 where h1: "h1 = h @ e1"
    and rowrel: "list_all2 (copied h h1) r newRow"
    by auto
  have "\<forall>r \<in> set rest. \<forall>a \<in> set r. a < length h1"
  proof (intro ballI)
    fix r1 a1
    assume "r1 \<in> set rest" "a1 \<in> set r1"
    with rest have "a1 < length h" by blast
    then show "a1 < length h1" by (simp add: h1)
  qed
  from Cons.IH[OF this rec] obtain e2 where h2: "h2 = h1 @ e2"
    and restrel: "list_all2 (list_all2 (copied h1 h2)) rest newRest"
    by auto
  have 1: "list_all2 (copied h h2) r newRow"
    unfolding h2 by (rule list.rel_mono_strong[OF rowrel]) (auto intro: copied_extend)
  have 2: "list_all2 (list_all2 (copied h h2)) rest newRest"
  proof (rule list.rel_mono_strong[OF restrel])
    fix r1 r1'
    assume r1: "r1 \<in> set rest" and rel1: "list_all2 (copied h1 h2) r1 r1'"
    show "list_all2 (copied h h2) r1 r1'"
      by (rule list.rel_mono_strong[OF rel1])
         (use r1 rest in \<open>auto intro: copied_shift simp: h1\<close>)
  qed
  from 1 2 h1 h2 eq show ?case
    by auto
qed

lemma copied_valid_row:
  assumes "valid_row h w r" and "list_all2 (copied h h') r r'"
  shows "valid_row h' w r' \<and> list_all (\<lambda>a. length h \<le> a) r'"
proof -
  from assms(2) have len: "length r' = length r"
    by (simp add: list_all2_lengthD)
  have "list_all2 (\<lambda>a a'. column (h ! a) = column (h' ! a')) r r'"
    by (rule list.rel_mono_strong[OF assms(2)]) (simp add: copied_def)
  then have "map (\<lambda>a. column (h ! a)) r = map (\<lambda>a. column (h' ! a)) r'"
    by (simp add: list.rel_eq[symmetric] list_all2_map1 list_all2_map2 del: list.rel_eq)
  moreover from assms(2) have "\<forall>a' \<in> set r'. a' < length h' \<and> length h \<le> a'"
    by (auto simp: list_all2_conv_all_nth in_set_conv_nth copied_def)
  ultimately show ?thesis
    using assms(1) len by (auto simp: valid_row_def list_all_iff)
qed

lemma CopyMatrix_spec:
  assumes "valid_matrix h m" and "CopyMatrix h m = (h', copy)"
  shows "(\<exists>ext. h' = h @ ext) \<and> valid_matrix h' copy \<and> cells_above (length h) copy \<and>
         width copy = width m \<and> height copy = height m \<and>
         list_all2 (list_all2 (copied h h')) (head m) (head copy)"
proof -
  obtain rows' where rows: "copy_rows h (head m) = (h', rows')"
    and copy: "copy = \<lparr>head = rows', width = width m, height = height m\<rparr>"
    using assms(2) by (cases "copy_rows h (head m)") (auto simp: CopyMatrix_def)
  from assms(1) have small: "\<forall>r \<in> set (head m). \<forall>a \<in> set r. a < length h"
    by (auto simp: valid_matrix_def valid_row_def list_all_iff)
  from copy_rows_spec[OF small rows] obtain ext where ext: "h' = h @ ext"
    and rel: "list_all2 (list_all2 (copied h h')) (head m) rows'"
    by auto
  from rel have len: "length rows' = length (head m)"
    by (simp add: list_all2_lengthD)
  have each: "valid_row h' (width m) r' \<and> list_all (\<lambda>a. length h \<le> a) r'"
    if "r' \<in> set rows'" for r'
  proof -
    from that obtain i where i: "i < length rows'" "rows' ! i = r'"
      by (auto simp: in_set_conv_nth)
    with rel len have "list_all2 (copied h h') (head m ! i) r'"
      by (auto simp: list_all2_conv_all_nth)
    moreover from i len assms(1) have "valid_row h (width m) (head m ! i)"
      by (auto simp: valid_matrix_def list_all_iff)
    ultimately show ?thesis
      by (rule copied_valid_row[rotated])
  qed
  with assms(1) len ext rel show ?thesis
    by (auto simp: copy valid_matrix_def cells_above_def list_all_iff)
qed

lemmas heap_frame_trans_rule [trans] = heap_frame_trans

lemma heap_frame_valid_row:
  "heap_frame n h h' \<Longrightarrow> valid_row h w r \<Longrightarrow> valid_row h' w r"
  by (simp add: heap_frame_def valid_row_def)

lemma heap_frame_valid:
  "heap_frame n h h' \<Longrightarrow> valid_matrix h m \<Longrightarrow> valid_matrix h' m"
  by (auto simp: valid_matrix_def list_all_iff intro: heap_frame_valid_row)

lemma valid_row_append:
  assumes "valid_row h w r"
  shows "valid_row (h @ ext) w r"
proof -
  from assms have small: "\<forall>a \<in> set r. a < length h"
    by (simp add: valid_row_def list_all_iff)
  then have "map (\<lambda>a. column ((h @ ext) ! a)) r = map (\<lambda>a. column (h ! a)) r"
    by (simp add: nth_append)
  with assms small show ?thesis
    by (auto simp: valid_row_def list_all_iff)
qed

lemma valid_matrix_append:
  "valid_matrix h m \<Longrightarrow> valid_matrix (h @ ext) m"
  by (auto simp: valid_matrix_def list_all_iff intro: valid_row_append)

lemma reduction_passes_spec:
  assumes "valid_matrix h m" and "reduction_passes h m = (h4, copy)"
  shows "length h \<le> length h4 \<and> (\<forall>a < length h. h4 ! a = h ! a) \<and>
         valid_matrix h4 m \<and> valid_matrix h4 copy \<and> cells_above (length h) copy \<and>
         width copy = width m \<and> height copy = height m"
proof -
  obtain h0 where cp: "CopyMatrix h m = (h0, copy)"
    and h4: "h4 = SubtractColumnMinima (SubtractRowMinima (MakeMatrixNonnegative
                    (NegateAllElements h0 copy) copy) copy) copy"
    using assms(2) by (cases "CopyMatrix h m") (auto simp: reduction_passes_def Let_def)
  from CopyMatrix_spec[OF assms(1) cp] obtain ext where ext: "h0 = h @ ext"
    and v: "valid_matrix h0 copy" and above: "cells_above (length h) copy"
    and dims: "width copy = width m" "height copy = height m"
    by auto
  let ?h1 = "NegateAllElements h0 copy"
  let ?h2 = "MakeMatrixNonnegative ?h1 copy"
  let ?h3 = "SubtractRowMinima ?h2 copy"
  have "heap_frame (length h) h0 ?h1"
    by (rule NegateAllElements_frame[OF above])
  also have "heap_frame (length h) ?h1 ?h2"
    by (rule MakeMatrixNonnegative_frame[OF above])
  also have "heap_frame (length h) ?h2 ?h3"
    by (rule SubtractRowMinima_frame[OF above])
  also have "heap_frame (length h) ?h3 h4"
    unfolding h4 by (rule SubtractColumnMinima_frame[OF above])
  finally have fr: "heap_frame (length h) h0 h4" .
  from fr ext have "length h \<le> length h4" "\<forall>a < length h. h4 ! a = h ! a"
    by (auto simp: heap_frame_def nth_append)
  moreover from heap_frame_valid[OF fr v] have "valid_matrix h4 copy" .
  moreover have "valid_matrix h0 m"
    unfolding ext by (rule valid_matrix_append[OF assms(1)])
  from heap_frame_valid[OF fr this] have "valid_matrix h4 m" .
  ultimately show ?thesis
    using above dims by simp
qed

lemma hungarian_loop_spec:
  assumes ret: "hungarian_loop copy h4 cr cc = Some y"
  shows "cells_above n copy \<longrightarrow> heap_frame n h4 (fst y) \<and> IsOptimalSolution (fst y) copy"
proof (rule hungarian_loop.raw_induct
         [where P = "\<lambda>m h cr cc y. cells_above n m \<longrightarrow> heap_frame n h (fst y) \<and> IsOptimalSolution (fst y) m",
          OF _ ret])
  fix loop :: "Matrix \<Rightarrow> heap \<Rightarrow> bool list \<Rightarrow> bool list \<Rightarrow> (heap \<times> bool list \<times> bool list) option"
  fix m1 h1 cr1 cc1 y1
  assume IH: "\<And>m2 h2 cr2 cc2 y2. loop m2 h2 cr2 cc2 = Some y2 \<Longrightarrow>
                 cells_above n m2 \<longrightarrow> heap_frame n h2 (fst y2) \<and> IsOptimalSolution (fst y2) m2"
    and step: "(if IsOptimalSolution h1 m1 then Some (h1, cr1, cc1)
                else let cov = CoverZeros h1 m1 (cr1, cc1) in
                  loop m1 (CreateAdditionalZeros h1 m1 (fst cov) (snd cov)) (fst cov) (snd cov))
               = Some y1"
  show "cells_above n m1 \<longrightarrow> heap_frame n h1 (fst y1) \<and> IsOptimalSolution (fst y1) m1"
  proof
    assume above: "cells_above n m1"
    show "heap_frame n h1 (fst y1) \<and> IsOptimalSolution (fst y1) m1"
    proof (cases "IsOptimalSolution h1 m1")
      case True
      with step show ?thesis
        by (auto simp: heap_frame_refl)
    next
      case False
      let ?cov = "CoverZeros h1 m1 (cr1, cc1)"
      let ?h2 = "CreateAdditionalZeros h1 m1 (fst ?cov) (snd ?cov)"
      from False step have "loop m1 ?h2 (fst ?cov) (snd ?cov) = Some y1"
        by (simp add: Let_def)
      from IH[OF this] above have "heap_frame n ?h2 (fst y1)" "IsOptimalSolution (fst y1) m1"
        by auto
      with heap_frame_trans[OF CreateAdditionalZeros_frame[OF above]] show ?thesis
        by blast
    qed
  qed
qed

lemma valid_cell_addr:
  assumes "valid_matrix h m" and "r < nat (height m)" and "c < nat (width m)"
  shows "cell_addr m r c = head m ! r ! c \<and> cell_addr m r c < length h \<and>
         column (h ! cell_addr m r c) = int c"
proof -
  from assms(1,2) have r: "r < length (head m)" "head m ! r \<in> set (head m)"
    by (auto simp: valid_matrix_def)
  with assms(1) have row: "valid_row h (width m) (head m ! r)"
    by (auto simp: valid_matrix_def list_all_iff)
  with assms(3) have c: "c < length (head m ! r)"
    by (simp add: valid_row_def)
  from assms(2) r have "GetRowNode m (int r) = Some (head m ! r)"
    by (auto simp: GetRowNode_def)
  with c have addr: "cell_addr m r c = head m ! r ! c"
    by (simp add: cell_addr_def GetElementCol_def)
  from row c have "head m ! r ! c < length h"
    by (auto simp: valid_row_def list_all_iff)
  moreover from row have "map (\<lambda>a. column (h ! a)) (head m ! r) ! c = map int [0..<nat (width m)] ! c"
    by (simp add: valid_row_def)
  with c assms(3) have "column (h ! (head m ! r ! c)) = int c"
    by simp
  ultimately show ?thesis
    using addr by simp
qed

lemma valid_cell:
  assumes "valid_matrix h m" and "r < nat (height m)" and "c < nat (width m)"
  shows "cell_value h m r c = val (h ! (head m ! r ! c))"
    and "column (h ! (head m ! r ! c)) = int c"
    and "head m ! r ! c < length h"
proof -
  from valid_cell_addr[OF assms] have a: "cell_addr m r c = head m ! r ! c"
    and b: "cell_addr m r c < length h" and c: "column (h ! cell_addr m r c) = int c"
    by auto
  show "cell_value h m r c = val (h ! (head m ! r ! c))"
    by (simp add: cell_value_def a)
  from c show "column (h ! (head m ! r ! c)) = int c"
    unfolding a .
  from b show "head m ! r ! c < length h"
    unfolding a .
qed

lemma hungarian_frame:
  assumes v: "valid_matrix h m" and ret: "HungarianAlgorithm h m = Some (h', res)"
  shows "length h \<le> length h' \<and> (\<forall>a < length h. h' ! a = h ! a) \<and> valid_matrix h' m"
proof -
  obtain h4 copy where red: "reduction_passes h m = (h4, copy)"
    by (cases "reduction_passes h m") auto
  from reduction_passes_spec[OF v red]
  have pre: "length h \<le> length h4" "\<forall>a < length h. h4 ! a = h ! a" "valid_matrix h4 m"
    and above: "cells_above (length h) copy"
    by auto
  show ?thesis
  proof (cases "calloc_fails (height copy) \<or> calloc_fails (width copy)")
    case True
    with ret red have "h' = h4"
      by (auto simp: HungarianAlgorithm_def Let_def split: if_splits)
    with pre show ?thesis by simp
  next
    case False
    with ret red obtain y where
      loop: "hungarian_loop copy h4 (replicate (nat (height copy)) False)
               (replicate (nat (width copy)) False) = Some y"
      and h': "h' = fst y"
      by (auto simp: HungarianAlgorithm_def Let_def split: option.splits)
    from hungarian_loop_spec[OF loop, of "length h"] above h'
    have fr: "heap_frame (length h) h4 h'"
      by simp
    with pre heap_frame_valid[OF fr pre(3)] show ?thesis
      by (simp add: heap_frame_def)
  qed
qed

section \<open>Properties of the extraction\<close>

lemma extract_row_inv:
  assumes inv: "extract_inv (width orig) r st"
  shows "extract_inv (width orig) (Suc r) (extract_row h orig fin r st)"
proof (cases "find (\<lambda>c. cell_value h fin r c = 0 \<and> \<not> xCoveredCols st ! c) [0..<nat (width orig)]")
  case None
  with inv show ?thesis
    by (auto simp: extract_row_def extract_inv_def list_all_iff)
next
  case (Some c)
  then have c: "c < nat (width orig)" "\<not> xCoveredCols st ! c"
    by (auto simp: find_Some_iff)
  from inv have len: "length (xCoveredCols st) = nat (width orig)"
    and cells: "\<forall>e \<in> set (xCells st). 0 \<le> row e \<and> row e < int r \<and> 0 \<le> col e \<and>
                  col e < width orig \<and> xCoveredCols st ! nat (col e)"
    by (auto simp: extract_inv_def list_all_iff)
  have fresh_col: "int c \<notin> col ` set (xCells st)"
  proof
    assume "int c \<in> col ` set (xCells st)"
    then obtain e where e: "e \<in> set (xCells st)" "col e = int c"
      by auto
    with cells have "xCoveredCols st ! nat (col e)"
      by blast
    with e c show False
      by simp
  qed
  from cells have fresh_row: "int r \<notin> row ` set (xCells st)"
    by auto
  from c len have clen: "c < length (xCoveredCols st)"
    by simp
  have upd: "(xCoveredCols st)[c := True] ! nat (col e)" if "e \<in> set (xCells st)" for e
    using cells that by (simp add: nth_list_update[OF clen])
  have new: "(xCoveredCols st)[c := True] ! c"
    using clen by simp
  show ?thesis
    using inv Some fresh_col fresh_row upd new c cells
    by (auto simp: extract_row_def extract_inv_def list_all_iff Let_def wrap_add_left)
qed

lemma extract_fold_inv:
  assumes "extract_inv (width orig) 0 st"
  shows "extract_inv (width orig) n (fold (extract_row h orig fin) [0..<n] st)"
proof (induction n)
  case 0
  with assms show ?case by simp
next
  case (Suc n)
  from extract_row_inv[OF Suc.IH] show ?case
    by simp
qed

lemma extract_inv_selection_ok:
  assumes "extract_inv (width m) (nat (height m)) st" and "0 \<le> height m" and "0 \<le> width m"
  shows "selection_ok m (xCells st)"
proof -
  from assms have rows: "distinct (map row (xCells st))"
    "\<forall>e \<in> set (xCells st). 0 \<le> row e \<and> row e < height m"
    and cols: "distinct (map col (xCells st))"
    "\<forall>e \<in> set (xCells st). 0 \<le> col e \<and> col e < width m"
    by (auto simp: extract_inv_def list_all_iff)
  from distinct_bounded_length[OF rows assms(2)] distinct_bounded_length[OF cols assms(3)]
    rows(1) cols(1)
  show ?thesis
    by (simp add: selection_ok_def)
qed

lemma ExtractFinalSolution_inv:
  assumes "ExtractFinalSolution h orig fin = Inr st"
  shows "extract_inv (width orig) (nat (height orig)) st \<and> 0 \<le> height orig \<and> 0 \<le> width orig"
proof -
  let ?st0 = "\<lparr>xSum = 0, xAssignments = 0, xCoveredCols = replicate (nat (width orig)) False,
               xChosenElements = [], xCells = []\<rparr>"
  from assms have st: "st = fold (extract_row h orig fin) [0..<nat (height orig)] ?st0"
    and dims: "0 \<le> height orig" "0 \<le> width orig"
    by (auto simp: ExtractFinalSolution_def Let_def calloc_fails_def split: if_splits)
  have "extract_inv (width orig) 0 ?st0"
    by (simp add: extract_inv_def wrap_zero)
  from extract_fold_inv[OF this] st dims show ?thesis
    by simp
qed

lemma hungarian_selection_ok:
  assumes "HungarianAlgorithm h m = Some (h', Inr st)"
  shows "selection_ok m (xCells st) \<and> xAssignments st = int (length (xCells st)) \<and>
         xChosenElements st = map selval (xCells st) \<and>
         xSum st = wrap (sum_list (xChosenElements st))"
proof -
  from assms obtain h5 copy where "ExtractFinalSolution h5 m copy = Inr st"
    by (auto simp: HungarianAlgorithm_def Let_def split: prod.splits if_splits option.splits)
  from ExtractFinalSolution_inv[OF this] extract_inv_selection_ok[of m st] show ?thesis
    by (auto simp: extract_inv_def)
qed











section \<open>What the Backtrack solver computes\<close>

lemma finite_completions: "finite (completions m r U)"
proof -
  have "completions m r U \<subseteq> {cs. set cs \<subseteq> {..<nat (width m)} \<and> length cs = nat (height m) - r}"
    by (auto simp: completions_def)
  then show ?thesis
    by (rule finite_subset) (simp add: finite_lists_length_eq)
qed

lemma completions_leaf: "nat (height m) \<le> r \<Longrightarrow> completions m r U = {[]}"
  by (auto simp: completions_def)

lemma completions_hd:
  assumes "r < nat (height m)" and "x < nat (width m)" and "x \<notin> U"
  shows "{cs \<in> completions m r U. hd cs = x} = (Cons x) ` completions m (Suc r) (insert x U)"
proof (intro set_eqI iffI)
  fix cs
  assume "cs \<in> {cs \<in> completions m r U. hd cs = x}"
  then have cs: "length cs = nat (height m) - r" "distinct cs"
    "set cs \<subseteq> {..<nat (width m)} - U" "hd cs = x"
    by (auto simp: completions_def)
  with assms(1) obtain t where t: "cs = x # t"
    by (cases cs) auto
  with cs have "t \<in> completions m (Suc r) (insert x U)"
    by (auto simp: completions_def)
  with t show "cs \<in> (Cons x) ` completions m (Suc r) (insert x U)"
    by blast
next
  fix cs
  assume "cs \<in> (Cons x) ` completions m (Suc r) (insert x U)"
  then obtain t where t: "cs = x # t" "t \<in> completions m (Suc r) (insert x U)"
    by blast
  with assms show "cs \<in> {cs \<in> completions m r U. hd cs = x}"
    by (auto simp: completions_def)
qed

lemma completions_hd_used:
  assumes "r < nat (height m)" and "x \<in> U"
  shows "{cs \<in> completions m r U. hd cs = x} = {}"
proof -
  have False if "cs \<in> completions m r U" "hd cs = x" for cs
  proof -
    from that(1) assms(1) have "cs \<noteq> []" "set cs \<inter> U = {}"
      by (auto simp: completions_def)
    with that(2) assms(2) show False
      by (cases cs) auto
  qed
  then show ?thesis by blast
qed

lemma Max_insert_Max:
  fixes a :: int
  assumes "finite A" and "finite B"
  shows "Max (insert (Max (insert a A)) B) = Max (insert a (A \<union> B))"
proof (rule antisym)
  have "Max (insert a A) \<le> Max (insert a (A \<union> B))"
    using assms by (intro Max_mono) auto
  moreover have "x \<le> Max (insert a (A \<union> B))" if "x \<in> B" for x
    using assms that by (intro Max_ge) auto
  ultimately show "Max (insert (Max (insert a A)) B) \<le> Max (insert a (A \<union> B))"
    using assms by (intro Max.boundedI) auto
  show "Max (insert a (A \<union> B)) \<le> Max (insert (Max (insert a A)) B)"
  proof (intro Max.boundedI)
    fix x
    assume "x \<in> insert a (A \<union> B)"
    then consider "x \<in> insert a A" | "x \<in> B" by auto
    then show "x \<le> Max (insert (Max (insert a A)) B)"
    proof cases
      case 1
      then have "x \<le> Max (insert a A)"
        using assms by (intro Max_ge) auto
      also have "\<dots> \<le> Max (insert (Max (insert a A)) B)"
        using assms by (intro Max_ge) auto
      finally show ?thesis .
    next
      case 2
      then show ?thesis
        using assms by (intro Max_ge) auto
    qed
  qed (use assms in auto)
qed

lemma used_set_mark:
  assumes "i < length (usedColumns p)"
  shows "used_set (mark r i p) = insert i (used_set p)"
  using assms by (auto simp: used_set_def mark_def nth_list_update)

lemma Explore_maxSum:
  "length (usedRows p) = nat (height m) \<Longrightarrow>
   (\<forall>r' < nat (height m). r \<le> r' \<longrightarrow> usedRows p ! r' = 0) \<Longrightarrow>
   length (usedColumns p) = nat (width m) \<Longrightarrow> int r \<le> height m \<Longrightarrow> int_range s \<Longrightarrow>
   maxSum (Explore h m r s p) =
     Max (insert (maxSum p) ((\<lambda>cs. wrap (s + path_sum h m r cs)) ` completions m r (used_set p)))"
proof (induction h m r s p rule: Explore.induct)
  case (1 h m r s p)
  note lenR = "1.prems"(1) and free = "1.prems"(2) and lenC = "1.prems"(3) and le = "1.prems"(4)
    and range = "1.prems"(5)
  let ?f = "\<lambda>cs. wrap (s + path_sum h m r cs)"
  let ?U = "used_set p"
  show ?case
  proof (cases "int r = height m")
    case True
    then have "completions m r ?U = {[]}"
      by (intro completions_leaf) simp
    with True show ?thesis
      by (simp add: Explore.simps[of h m r s p] CopySelectedValues_maxSum wrap_id[OF range])
  next
    case False
    with le have ne: "int r \<noteq> height m" "\<not> height m < int r" and r: "r < nat (height m)"
      by auto
    let ?body = "\<lambda>i p. if usedRows p ! r = 0 \<and> usedColumns p ! i = 0
                       then unmark r i (Explore h m (Suc r) (wrap (s + cell_value h m r i)) (mark r i p))
                       else p"
    have inner: "usedRows (fold ?body xs st) = usedRows p \<and>
                 usedColumns (fold ?body xs st) = usedColumns p \<and>
                 maxSum (fold ?body xs st) =
                   Max (insert (maxSum st) (?f ` {cs \<in> completions m r ?U. hd cs \<in> set xs}))"
      if "usedRows st = usedRows p" "usedColumns st = usedColumns p"
        "set xs \<subseteq> set [0..<nat (width m)]" for xs and st :: ExploreParams
      using that
    proof (induction xs arbitrary: st)
      case Nil
      then show ?case by simp
    next
      case (Cons x xs)
      note sameR = Cons.prems(1) and sameC = Cons.prems(2)
      from Cons.prems(3) have x: "x \<in> set [0..<nat (width m)]" and xs: "set xs \<subseteq> set [0..<nat (width m)]"
        by auto
      from x lenC have xlen: "x < length (usedColumns p)" "x < nat (width m)"
        by auto
      from free r sameR have row0: "usedRows st ! r = 0"
        by simp
      let ?A = "?f ` {cs \<in> completions m r ?U. hd cs = x}"
      let ?B = "?f ` {cs \<in> completions m r ?U. hd cs \<in> set xs}"
      have step: "usedRows (?body x st) = usedRows p \<and> usedColumns (?body x st) = usedColumns p \<and>
                  maxSum (?body x st) = Max (insert (maxSum st) ?A)"
      proof (cases "usedColumns st ! x = 0")
        case True
        let ?q1 = "mark r x st"
        let ?v = "cell_value h m r x"
        let ?q2 = "Explore h m (Suc r) (wrap (s + ?v)) ?q1"
        from True sameC xlen have notin: "x \<notin> ?U"
          by (simp add: used_set_def)
        have p1: "length (usedRows ?q1) = nat (height m)"
          using lenR sameR by (simp add: mark_def)
        have p2: "\<forall>r' < nat (height m). Suc r \<le> r' \<longrightarrow> usedRows ?q1 ! r' = 0"
          using free sameR by (simp add: mark_def)
        have p3: "length (usedColumns ?q1) = nat (width m)"
          using lenC sameC by (simp add: mark_def)
        from r have p4: "int (Suc r) \<le> height m" by simp
        from row0 True have cond: "usedRows st ! r = 0 \<and> usedColumns st ! x = 0" by simp
        from "1.IH"[OF ne x cond p1 p2 p3 p4 wrap_range]
        have "maxSum ?q2 = Max (insert (maxSum ?q1)
                ((\<lambda>cs. wrap (wrap (s + ?v) + path_sum h m (Suc r) cs)) `
                   completions m (Suc r) (used_set ?q1)))" .
        moreover have "used_set ?q1 = insert x ?U"
          using used_set_mark[of x st r] xlen sameC by (simp add: used_set_def)
        moreover have "?A = (\<lambda>cs. wrap (wrap (s + ?v) + path_sum h m (Suc r) cs)) `
                              completions m (Suc r) (insert x ?U)"
          unfolding completions_hd[OF r xlen(2) notin]
          by (simp add: image_image add.assoc wrap_add_left)
        ultimately have m: "maxSum ?q2 = Max (insert (maxSum st) ?A)"
          by (simp add: mark_def)
        have restore: "ys[i := 0] = ys" if "ys ! i = 0" for ys :: "int list" and i
          using list_update_id[of ys i] that by simp
        from Explore_used[of h m "Suc r" "wrap (s + ?v)" ?q1]
        have "usedRows (unmark r x ?q2) = (usedRows st)[r := 0]"
          "usedColumns (unmark r x ?q2) = (usedColumns st)[x := 0]"
          by (simp_all add: unmark_def mark_def)
        with cond restore have "usedRows (unmark r x ?q2) = usedRows st"
          "usedColumns (unmark r x ?q2) = usedColumns st"
          by simp_all
        moreover have "maxSum (unmark r x ?q2) = maxSum ?q2"
          by (simp add: unmark_def)
        ultimately show ?thesis
          using sameR sameC m cond by simp
      next
        case False
        with sameC xlen have "x \<in> ?U"
          by (simp add: used_set_def)
        note e = completions_hd_used[OF r this]
        from False sameR sameC show ?thesis
          unfolding e by simp
      qed
      from step have s1: "usedRows (?body x st) = usedRows p"
        and s2: "usedColumns (?body x st) = usedColumns p"
        and s3: "maxSum (?body x st) = Max (insert (maxSum st) ?A)"
        by auto
      have fin: "finite ?A" "finite ?B"
        using finite_completions[of m r ?U] by auto
      have un: "?A \<union> ?B = ?f ` {cs \<in> completions m r ?U. hd cs \<in> set (x # xs)}"
        by auto
      from Cons.IH[OF s1 s2 xs] s3 Max_insert_Max[OF fin, of "maxSum st"] un
      show ?case
        by simp
    qed
    have all: "{cs \<in> completions m r ?U. hd cs \<in> set [0..<nat (width m)]} = completions m r ?U"
    proof -
      have "hd cs \<in> set [0..<nat (width m)]" if "cs \<in> completions m r ?U" for cs
      proof -
        from that r have "cs \<noteq> []" "set cs \<subseteq> {..<nat (width m)}"
          by (auto simp: completions_def)
        then show ?thesis
          by (cases cs) auto
      qed
      then show ?thesis by blast
    qed
    from inner[of p "[0..<nat (width m)]"] all ne show ?thesis
      by (simp add: Explore.simps[of h m r s p])
  qed
qed

section \<open>Greedy when every row finds a cell\<close>

lemma greedy_scan_keeps:
  "snd (greedy_scan h uR uC ri as (mv, Some b)) \<noteq> None"
  by (induction as arbitrary: mv b) auto

lemma greedy_scan_finds:
  "a \<in> set as \<Longrightarrow> uR ! ri = 0 \<Longrightarrow> uC ! nat (column (h ! a)) = 0 \<Longrightarrow> mv < val (h ! a) \<Longrightarrow>
   snd (greedy_scan h uR uC ri as (mv, me)) \<noteq> None"
proof (induction as arbitrary: mv me)
  case Nil
  then show ?case by simp
next
  case (Cons x xs)
  show ?case
  proof (cases "uR ! ri = 0 \<and> uC ! nat (column (h ! x)) = 0 \<and> val (h ! x) > mv")
    case True
    then show ?thesis
      by (simp add: greedy_scan_keeps)
  next
    case False
    with Cons.prems have "a \<in> set xs"
      by auto
    from Cons.IH[OF this Cons.prems(2,3,4)] False show ?thesis
      by auto
  qed
qed

lemma valid_row_position:
  assumes "valid_row h w r" and "a \<in> set r"
  shows "\<exists>j < nat w. a = r ! j \<and> column (h ! a) = int j"
proof -
  from assms(2) obtain j where j: "j < length r" "r ! j = a"
    by (auto simp: in_set_conv_nth)
  from assms(1) have len: "length r = nat w"
    and eq: "map (\<lambda>a. column (h ! a)) r ! j = map int [0..<nat w] ! j"
    by (simp_all add: valid_row_def)
  from j len have jw: "j < nat w"
    by simp
  from eq j jw have "column (h ! (r ! j)) = int j"
    by (simp del: map_map)
  with j jw show ?thesis
    by auto
qed

lemma path_sum_cells:
  "map row es = map int [r..<r + length es] \<Longrightarrow>
   list_all (\<lambda>e. selval e = cell_value h m (nat (row e)) (nat (col e))) es \<Longrightarrow>
   path_sum h m r (map (\<lambda>e. nat (col e)) es) = sum_list (map selval es)"
proof (induction es arbitrary: r)
  case Nil
  then show ?case by simp
next
  case (Cons e es)
  have "[r..<r + length (e # es)] = r # [Suc r..<Suc r + length es]"
    by (simp add: upt_conv_Cons del: upt_Suc)
  with Cons.prems(1) have "row e # map row es = int r # map int [Suc r..<Suc r + length es]"
    by (simp del: upt_Suc)
  then have e: "row e = int r" and rest: "map row es = map int [Suc r..<Suc r + length es]"
    by auto
  from Cons.IH[OF rest] Cons.prems(2) e show ?case
    by simp
qed

lemma greedy_full_step:
  assumes v: "valid_matrix h m" and hw: "height m \<le> width m" and ri: "ri < nat (height m)"
    and big: "list_all (\<lambda>a. INT_MIN < val (h ! a)) (head m ! ri)"
    and inv: "greedy_full h m ri st"
  shows "\<exists>a. snd (greedy_scan h (gUsedRows st) (gUsedColumns st) ri (head m ! ri) (INT_MIN, None))
               = Some a \<and>
             greedy_full h m (Suc ri) (greedy_select h ri a st)"
proof -
  let ?r = "head m ! ri"
  let ?W = "nat (width m)"
  let ?uC = "gUsedColumns st"
  from v ri have "?r \<in> set (head m)"
    by (simp add: valid_matrix_def)
  with v have row: "valid_row h (width m) ?r"
    by (auto simp: valid_matrix_def list_all_iff)
  from inv have ginv: "greedy_inv (width m) ri st"
    and lenR: "length (gUsedRows st) = nat (height m)"
    and later: "\<forall>r' < nat (height m). ri \<le> r' \<longrightarrow> gUsedRows st ! r' = 0"
    and rows: "map row (gCells st) = map int [0..<ri]"
    and used: "\<forall>c < ?W. ?uC ! c \<noteq> 0 \<longrightarrow> int c \<in> col ` set (gCells st)"
    and vals: "list_all (\<lambda>e. selval e = cell_value h m (nat (row e)) (nat (col e))) (gCells st)"
    by (auto simp: greedy_full_def)
  from ginv have lenC: "length ?uC = ?W"
    by (simp add: greedy_inv_def)
  from rows have n: "length (gCells st) = ri"
    using length_map[of row "gCells st"] by simp
  from later ri have row0: "gUsedRows st ! ri = 0"
    by simp
  \<comment> \<open>fewer cells than columns: some column is free\<close>
  let ?used = "{c. c < ?W \<and> ?uC ! c \<noteq> 0}"
  have "?used \<subseteq> (\<lambda>e. nat (col e)) ` set (gCells st)"
  proof
    fix c
    assume "c \<in> ?used"
    with used obtain e where "e \<in> set (gCells st)" "col e = int c"
      by auto
    then show "c \<in> (\<lambda>e. nat (col e)) ` set (gCells st)"
      by force
  qed
  then have "card ?used \<le> card ((\<lambda>e. nat (col e)) ` set (gCells st))"
    by (intro card_mono) auto
  also have "\<dots> \<le> card (set (gCells st))"
    by (rule card_image_le) simp
  also have "\<dots> \<le> ri"
    using card_length[of "gCells st"] n by simp
  finally have few: "card ?used < ?W"
    using ri hw by simp
  have "\<exists>c < ?W. ?uC ! c = 0"
  proof (rule ccontr)
    assume "\<not> (\<exists>c < ?W. ?uC ! c = 0)"
    then have "?used = {..<?W}"
      by auto
    with few show False
      by simp
  qed
  then obtain c where c: "c < ?W" "?uC ! c = 0"
    by blast
  note colc = valid_cell(2)[OF v ri c(1)]
  from row c(1) have mem: "?r ! c \<in> set ?r"
    by (simp add: valid_row_def)
  with big have "INT_MIN < val (h ! (?r ! c))"
    by (simp add: list_all_iff)
  from greedy_scan_finds[OF mem row0 _ this, of ?uC None] c(2) colc
  obtain a where sel: "snd (greedy_scan h (gUsedRows st) ?uC ri ?r (INT_MIN, None)) = Some a"
    by auto
  from greedy_scan_Some[OF sel] have a: "a \<in> set ?r"
    by simp
  from valid_row_position[OF row a] obtain j where j: "j < ?W" "a = ?r ! j" "column (h ! a) = int j"
    by auto
  from valid_cell(1)[OF v ri j(1)] j(2) have cv: "cell_value h m ri j = val (h ! a)"
    by simp
  note ginv' = greedy_select_inv[OF ginv row sel]
  have 1: "length (gUsedRows (greedy_select h ri a st)) = nat (height m)"
    using lenR by (simp add: greedy_select_def)
  have 2: "\<forall>r' < nat (height m). Suc ri \<le> r' \<longrightarrow> gUsedRows (greedy_select h ri a st) ! r' = 0"
    using later by (simp add: greedy_select_def)
  have 3: "map row (gCells (greedy_select h ri a st)) = map int [0..<Suc ri]"
    using rows by (simp add: greedy_select_def)
  have 4: "\<forall>c < ?W. gUsedColumns (greedy_select h ri a st) ! c \<noteq> 0 \<longrightarrow>
             int c \<in> col ` set (gCells (greedy_select h ri a st))"
  proof (intro allI impI)
    fix c'
    assume c': "c' < ?W" and nz: "gUsedColumns (greedy_select h ri a st) ! c' \<noteq> 0"
    show "int c' \<in> col ` set (gCells (greedy_select h ri a st))"
    proof (cases "c' = j")
      case True
      with j show ?thesis
        by (simp add: greedy_select_def)
    next
      case False
      with nz j lenC have "?uC ! c' \<noteq> 0"
        by (simp add: greedy_select_def)
      with used c' show ?thesis
        by (auto simp: greedy_select_def)
    qed
  qed
  have 5: "list_all (\<lambda>e. selval e = cell_value h m (nat (row e)) (nat (col e)))
             (gCells (greedy_select h ri a st))"
    using vals cv j by (simp add: greedy_select_def)
  from ginv' 1 2 3 4 5 have "greedy_full h m (Suc ri) (greedy_select h ri a st)"
    unfolding greedy_full_def by blast
  with sel show ?thesis
    by blast
qed

lemma greedy_rows_full:
  assumes v: "valid_matrix h m" and hw: "height m \<le> width m"
    and big: "list_all (list_all (\<lambda>a. INT_MIN < val (h ! a))) (head m)"
  shows "drop ri (head m) = rs \<Longrightarrow> greedy_full h m ri st \<Longrightarrow>
         greedy_full h m (ri + length rs) (greedy_rows h rs ri st)"
proof (induction rs arbitrary: ri st)
  case Nil
  then show ?case by simp
next
  case (Cons r rs)
  from Cons.prems(1) have rlen: "ri < length (head m)"
    by (cases "ri < length (head m)") auto
  with Cons.prems(1) have r: "r = head m ! ri" and rest: "drop (Suc ri) (head m) = rs"
    using Cons_nth_drop_Suc[OF rlen] by auto
  from v rlen have ri: "ri < nat (height m)"
    by (simp add: valid_matrix_def)
  from rlen have "head m ! ri \<in> set (head m)"
    by simp
  with big have "list_all (\<lambda>a. INT_MIN < val (h ! a)) (head m ! ri)"
    unfolding list_all_iff[of _ "head m"] by blast
  from greedy_full_step[OF v hw ri this Cons.prems(2)] obtain a where
    sel: "snd (greedy_scan h (gUsedRows st) (gUsedColumns st) ri (head m ! ri) (INT_MIN, None)) = Some a"
    and full: "greedy_full h m (Suc ri) (greedy_select h ri a st)"
    by blast
  from Cons.IH[OF rest full] sel show ?case
    by (simp add: r)
qed

section \<open>Claims\<close>

text \<open>
  C1 (the sum returned by \<^verbatim>\<open>BacktrackAlgorithm\<close> is the maximum over all selections
  with distinct rows and distinct columns). On the valid 2-by-1 matrix with rows \<open>[1]\<close>
  and \<open>[2]\<close> the search never reaches a leaf (\<open>currentRow = height\<close> needs a free column
  for every row), so the function returns the initial \<open>maxSum = 0\<close> and an empty
  selection, although the one-cell selection at row 1, column 0 has sum 2.
\<close>

theorem C1_backtrack_misses_maximum:
  "BacktrackAlgorithm heap_2x1 (Some matrix_2x1) =
     Inr \<lparr>maxSum = 0, usedRows = [0, 0], usedColumns = [0], selectionCount = 0,
          selectionValues = []\<rparr>
   \<and> valid_matrix heap_2x1 matrix_2x1
   \<and> cell_value heap_2x1 matrix_2x1 1 0 = 2"
  by code_simp

text \<open>
  C2 (\<^verbatim>\<open>HungarianAlgorithm\<close> and \<^verbatim>\<open>BacktrackAlgorithm\<close> return the same sum). On the
  valid 1-by-2 matrix \<open>[1, 5]\<close> the column reduction turns both cells of the copy into
  zeros and the extraction takes the first: the Hungarian sum is 1, the Backtrack sum
  is 5.
\<close>

theorem C2_hungarian_differs_from_backtrack:
  "map_option snd (HungarianAlgorithm heap_1x2 matrix_1x2) =
     Some (Inr \<lparr>xSum = 1, xAssignments = 1, xCoveredCols = [True, False],
                xChosenElements = [1], xCells = [\<lparr>row = 0, col = 0, selval = 1\<rparr>]\<rparr>)
   \<and> BacktrackAlgorithm heap_1x2 (Some matrix_1x2) =
     Inr \<lparr>maxSum = 5, usedRows = [0], usedColumns = [0, 0], selectionCount = 0,
          selectionValues = []\<rparr>
   \<and> valid_matrix heap_1x2 matrix_1x2"
  by code_simp

text \<open>
  C3 (the Greedy sum is at most the Backtrack sum). On the valid 2-by-1 matrix with
  rows \<open>[1]\<close> and \<open>[2]\<close> Greedy takes the 1 of row 0 and returns the sum 1, while
  Backtrack returns 0.
\<close>

theorem C3_greedy_exceeds_backtrack:
  "GreedyAlgorithm heap_2x1 (Some matrix_2x1) =
     Inr \<lparr>gMaxSum = 1, gMaxSelection = [1], gCurrentSelectionSize = 1, gUsedRows = [1, 0],
          gUsedColumns = [1], gCells = [\<lparr>row = 0, col = 0, selval = 1\<rparr>]\<rparr>
   \<and> map_sum id maxSum (BacktrackAlgorithm heap_2x1 (Some matrix_2x1)) = Inr 0"
  by code_simp

text \<open>
  C4 (for each of the three solvers the returned selection has pairwise-distinct rows,
  pairwise-distinct columns and at most \<open>min(W, H)\<close> elements). On a valid matrix
  \<^verbatim>\<open>GreedyAlgorithm\<close> and \<^verbatim>\<open>BacktrackAlgorithm\<close> return with such a selection, and so
  does \<^verbatim>\<open>HungarianAlgorithm\<close> whenever it returns; the counts the solvers keep are the
  lengths of the selections.
\<close>

theorem C4_selections_valid:
  assumes "valid_matrix h matrix"
  shows "(\<exists>g. GreedyAlgorithm h (Some matrix) = Inr g \<and> selection_ok matrix (gCells g) \<and>
              gCurrentSelectionSize g = int (length (gCells g)) \<and>
              gMaxSelection g = map selval (gCells g)) \<and>
         (\<exists>b. BacktrackAlgorithm h (Some matrix) = Inr b \<and>
              selection_ok matrix (selectionValues b) \<and>
              selectionCount b = int (length (selectionValues b))) \<and>
         (\<forall>h' x. HungarianAlgorithm h matrix = Some (h', Inr x) \<longrightarrow>
              selection_ok matrix (xCells x) \<and> xAssignments x = int (length (xCells x)) \<and>
              xChosenElements x = map selval (xCells x))"
proof (intro conjI allI impI)
  from assms obtain g where g: "GreedyAlgorithm h (Some matrix) = Inr g"
    by (auto simp: GreedyAlgorithm_def valid_matrix_def calloc_fails_def)
  from greedy_selection_ok[OF assms g] g
  show "\<exists>g. GreedyAlgorithm h (Some matrix) = Inr g \<and> selection_ok matrix (gCells g) \<and>
              gCurrentSelectionSize g = int (length (gCells g)) \<and>
              gMaxSelection g = map selval (gCells g)"
    by blast
next
  from assms obtain b where b: "BacktrackAlgorithm h (Some matrix) = Inr b"
    by (auto simp: BacktrackAlgorithm_def valid_matrix_def)
  from backtrack_selection_ok[OF assms b] b
  show "\<exists>b. BacktrackAlgorithm h (Some matrix) = Inr b \<and>
              selection_ok matrix (selectionValues b) \<and>
              selectionCount b = int (length (selectionValues b))"
    by blast
next
  fix h' x
  assume "HungarianAlgorithm h matrix = Some (h', Inr x)"
  from hungarian_selection_ok[OF this]
  show "selection_ok matrix (xCells x)" "xAssignments x = int (length (xCells x))"
    "xChosenElements x = map selval (xCells x)"
    by auto
qed

theorem C4_selections_valid_witness:
  "valid_matrix heap_2x2 matrix_2x2 \<and>
   (\<exists>g. GreedyAlgorithm heap_2x2 (Some matrix_2x2) = Inr g \<and>
        selection_ok matrix_2x2 (gCells g)) \<and>
   (\<exists>b. BacktrackAlgorithm heap_2x2 (Some matrix_2x2) = Inr b \<and>
        selection_ok matrix_2x2 (selectionValues b)) \<and>
   (\<exists>h' x. HungarianAlgorithm heap_2x2 matrix_2x2 = Some (h', Inr x) \<and>
        selection_ok matrix_2x2 (xCells x) \<and> xAssignments x = 2)"
proof -
  note c4 = C4_selections_valid[OF examples_valid(4)]
  from c4 hungarian_2x2 have "\<exists>h' x. HungarianAlgorithm heap_2x2 matrix_2x2 = Some (h', Inr x) \<and>
        selection_ok matrix_2x2 (xCells x) \<and> xAssignments x = 2"
    by simp
  with c4 examples_valid(4) show ?thesis
    by blast
qed

text \<open>
  C5 (the values of the returned selection add up to the returned sum). On the valid
  1-by-2 matrix \<open>[1, 5]\<close> Backtrack returns the sum 5 with \<open>selectionCount = 0\<close>, an
  empty selection whose values add up to 0:
  \<^verbatim>\<open>CopySelectedValues\<close> reads \<open>usedColumns\<close>, which is indexed by column, at the row
  indices \<open>0 \<le> i < height\<close>, and the chosen column 1 is not among them.
\<close>

theorem C5_backtrack_selection_sum:
  "map_sum id (\<lambda>p. (maxSum p, selectionCount p, sum_list (map selval (selectionValues p))))
     (BacktrackAlgorithm heap_1x2 (Some matrix_1x2)) = Inr (5, 0, 0)
   \<and> valid_matrix heap_1x2 matrix_1x2"
  by code_simp

text \<open>
  C6 (each solver returns \<^verbatim>\<open>INVALID_MATRIX_OR_INDICES\<close> exactly for a null matrix or a
  non-positive dimension). \<^verbatim>\<open>GreedyAlgorithm\<close> does not test the height: on the matrix
  of width 1 and height 0 it succeeds with an empty selection. \<^verbatim>\<open>HungarianAlgorithm\<close>
  has no test at all: it succeeds on the same matrix, and no input makes it return
  \<^verbatim>\<open>INVALID_MATRIX_OR_INDICES\<close>.
\<close>

theorem C6_invalid_matrix_accepted:
  "GreedyAlgorithm [] (Some matrix_0x1) =
     Inr \<lparr>gMaxSum = 0, gMaxSelection = [], gCurrentSelectionSize = 0, gUsedRows = [],
          gUsedColumns = [0], gCells = []\<rparr>
   \<and> HungarianAlgorithm [] matrix_0x1 =
     Some ([], Inr \<lparr>xSum = 0, xAssignments = 0, xCoveredCols = [False],
                    xChosenElements = [], xCells = []\<rparr>)"
  by code_simp

text \<open>
  C7 (the loop of \<^verbatim>\<open>HungarianAlgorithm\<close> ends within \<open>min(H, W)\<close> iterations or fails
  with a non-convergence error; the solver terminates on every input). On the valid
  3-by-3 matrix with rows \<open>[0, 0, 0]\<close>, \<open>[0, 0, 0]\<close>, \<open>[0, 1, 0]\<close> the first cover pass
  covers all three columns, after which no iteration changes the copy or the cover
  arrays and \<^verbatim>\<open>IsOptimalSolution\<close> stays false: the call never returns.
\<close>

theorem C7_hungarian_diverges:
  "HungarianAlgorithm heap_3x3 matrix_3x3 = None"
  by (simp add: HungarianAlgorithm_def reduction_3x3 copy_3x3_def calloc_fails_def
        loop_3x3_diverges [unfolded copy_3x3_def] numeral_3_eq_3)



text \<open>
  C9 (\<^verbatim>\<open>HungarianAlgorithm\<close> leaves the caller's matrix unchanged, because it works on a
  deep clone). For a valid matrix in the store \<open>h\<close>: whenever the call returns, every
  cell that was allocated before the call, so every cell of the caller's matrix, has
  its content unchanged in the final store, and the matrix is still valid there; the
  cells of \<^verbatim>\<open>CopyMatrix\<close>'s result are new cells (addresses from \<open>length h\<close> on) holding
  copies, with the same dimensions; and the reduction passes and every later
  \<^verbatim>\<open>CreateAdditionalZeros\<close> on the copy, from whatever store, keep the cells below
  \<open>length h\<close> as they are, whether or not the loop ends.
\<close>

theorem C9_hungarian_leaves_matrix_unchanged:
  assumes "valid_matrix h matrix"
  shows "(\<forall>h' res. HungarianAlgorithm h matrix = Some (h', res) \<longrightarrow>
            (\<forall>a < length h. h' ! a = h ! a) \<and> valid_matrix h' matrix \<and>
            (\<forall>r < nat (height matrix). \<forall>c < nat (width matrix).
               cell_value h' matrix r c = cell_value h matrix r c)) \<and>
         (\<forall>h0 matrixCopy. CopyMatrix h matrix = (h0, matrixCopy) \<longrightarrow>
            cells_above (length h) matrixCopy \<and>
            list_all2 (list_all2 (copied h h0)) (head matrix) (head matrixCopy) \<and>
            width matrixCopy = width matrix \<and> height matrixCopy = height matrix) \<and>
         (\<forall>h4 matrixCopy. reduction_passes h matrix = (h4, matrixCopy) \<longrightarrow>
            (\<forall>a < length h. h4 ! a = h ! a) \<and>
            (\<forall>hk coveredRows coveredCols.
               heap_frame (length h) hk (CreateAdditionalZeros hk matrixCopy coveredRows coveredCols)))"
proof -
  have 1: "(\<forall>a < length h. h' ! a = h ! a) \<and> valid_matrix h' matrix \<and>
           (\<forall>r < nat (height matrix). \<forall>c < nat (width matrix).
              cell_value h' matrix r c = cell_value h matrix r c)"
    if ret: "HungarianAlgorithm h matrix = Some (h', res)" for h' res
  proof -
    from hungarian_frame[OF assms ret]
    have same: "\<forall>a < length h. h' ! a = h ! a" and v': "valid_matrix h' matrix"
      by auto
    have "cell_value h' matrix r c = cell_value h matrix r c"
      if "r < nat (height matrix)" "c < nat (width matrix)" for r c
      using valid_cell_addr[OF assms that] same by (simp add: cell_value_def)
    with same v' show ?thesis
      by blast
  qed
  have 2: "cells_above (length h) matrixCopy \<and>
           list_all2 (list_all2 (copied h h0)) (head matrix) (head matrixCopy) \<and>
           width matrixCopy = width matrix \<and> height matrixCopy = height matrix"
    if "CopyMatrix h matrix = (h0, matrixCopy)" for h0 matrixCopy
    using CopyMatrix_spec[OF assms that] by simp
  have 3: "(\<forall>a < length h. h4 ! a = h ! a) \<and>
           (\<forall>hk coveredRows coveredCols.
              heap_frame (length h) hk (CreateAdditionalZeros hk matrixCopy coveredRows coveredCols))"
    if red: "reduction_passes h matrix = (h4, matrixCopy)" for h4 matrixCopy
  proof -
    from reduction_passes_spec[OF assms red]
    have same: "\<forall>a < length h. h4 ! a = h ! a" and above: "cells_above (length h) matrixCopy"
      by auto
    from same CreateAdditionalZeros_frame[OF above] show ?thesis
      by blast
  qed
  from 1 2 3 show ?thesis
    by blast
qed

theorem C9_hungarian_leaves_matrix_unchanged_witness:
  "valid_matrix heap_2x2 matrix_2x2 \<and>
   (\<exists>h' res. HungarianAlgorithm heap_2x2 matrix_2x2 = Some (h', res) \<and>
      take 4 h' = heap_2x2 \<and> valid_matrix h' matrix_2x2 \<and>
      cell_value h' matrix_2x2 1 0 = cell_value heap_2x2 matrix_2x2 1 0)"
proof -
  note c9 = C9_hungarian_leaves_matrix_unchanged[OF examples_valid(4)]
  from c9 hungarian_2x2 have
    "valid_matrix (heap_2x2 @ [\<lparr>val = 0, column = 0\<rparr>, \<lparr>val = 0, column = 1\<rparr>,
                       \<lparr>val = 0, column = 0\<rparr>, \<lparr>val = 0, column = 1\<rparr>]) matrix_2x2"
    "cell_value (heap_2x2 @ [\<lparr>val = 0, column = 0\<rparr>, \<lparr>val = 0, column = 1\<rparr>,
                       \<lparr>val = 0, column = 0\<rparr>, \<lparr>val = 0, column = 1\<rparr>]) matrix_2x2 1 0 =
     cell_value heap_2x2 matrix_2x2 1 0"
    by (simp_all add: matrix_2x2_def)
  with hungarian_2x2 examples_valid(4) show ?thesis
    by (simp add: heap_2x2_def)
qed

text \<open>
  C10 (\<^verbatim>\<open>GreedyAlgorithm\<close> never selects a cell holding \<^verbatim>\<open>INT_MIN\<close>). Whatever the
  matrix, no value written to \<open>maxSelection\<close> and no chosen cell holds \<^verbatim>\<open>INT_MIN\<close>; and
  for a row \<open>r\<close> all of whose cells in columns not marked used hold \<^verbatim>\<open>INT_MIN\<close>, the scan
  from the sentinel \<open>(INT_MIN, NULL)\<close> ends with \<open>maxElement = NULL\<close>, so the outer loop
  passes to the next row with its state unchanged.
\<close>

theorem C10_greedy_never_selects_INT_MIN:
  "(GreedyAlgorithm h matrix = Inr st \<longrightarrow>
      INT_MIN \<notin> set (gMaxSelection st) \<and> (\<forall>e \<in> set (gCells st). selval e \<noteq> INT_MIN)) \<and>
   ((\<forall>a \<in> set r. uC ! nat (column (h ! a)) = 0 \<longrightarrow> val (h ! a) = INT_MIN) \<longrightarrow>
      snd (greedy_scan h uR uC ri r (INT_MIN, None)) = None \<and>
      (gUsedColumns s = uC \<and> gUsedRows s = uR \<longrightarrow>
         greedy_rows h (r # rs) ri s = greedy_rows h rs (Suc ri) s))"
proof -
  have "INT_MIN \<notin> set (gMaxSelection st) \<and> (\<forall>e \<in> set (gCells st). selval e \<noteq> INT_MIN)"
    if "GreedyAlgorithm h matrix = Inr st"
  proof -
    from that obtain m where "st = greedy_rows h (head m) 0 (greedy_init m)"
      by (auto simp: GreedyAlgorithm_def split: option.splits if_splits)
    then show ?thesis
      using greedy_rows_no_min[of "greedy_init m" h "head m" 0]
      by (simp add: greedy_init_def)
  qed
  moreover have "snd (greedy_scan h uR uC ri r (INT_MIN, None)) = None"
    if "\<forall>a \<in> set r. uC ! nat (column (h ! a)) = 0 \<longrightarrow> val (h ! a) = INT_MIN"
    using greedy_scan_all_min[OF that] .
  ultimately show ?thesis
    by auto
qed

theorem C10_greedy_never_selects_INT_MIN_witness:
  "valid_matrix heap_int_min matrix_1x1 \<and>
   GreedyAlgorithm heap_int_min (Some matrix_1x1) = Inr (greedy_init matrix_1x1) \<and>
   gUsedColumns (greedy_init matrix_1x1) = [0] \<and>
   INT_MIN \<notin> set (gMaxSelection (greedy_init matrix_1x1)) \<and>
   snd (greedy_scan heap_int_min [0] [0] 0 [0] (INT_MIN, None)) = None"
proof -
  have v: "valid_matrix heap_int_min matrix_1x1" by code_simp
  have g: "GreedyAlgorithm heap_int_min (Some matrix_1x1) = Inr (greedy_init matrix_1x1)"
    by code_simp
  have u: "gUsedColumns (greedy_init matrix_1x1) = [0]" by code_simp
  have f: "\<forall>a \<in> set [0]. [0::int] ! nat (column (heap_int_min ! a)) = 0 \<longrightarrow>
            val (heap_int_min ! a) = INT_MIN"
    by (simp add: heap_int_min_def)
  from C10_greedy_never_selects_INT_MIN
         [of heap_int_min "Some matrix_1x1" "greedy_init matrix_1x1" "[0]" "[0]" "[0]" 0]
       v g u f
  show ?thesis by blast
qed

section \<open>Further properties of the solvers\<close>

text \<open>
  The validity tests as they are in the code: \<^verbatim>\<open>BacktrackAlgorithm\<close> returns
  \<^verbatim>\<open>INVALID_MATRIX_OR_INDICES\<close> exactly for a null matrix or a non-positive width or
  height (and no other error); \<^verbatim>\<open>GreedyAlgorithm\<close> exactly for a null matrix or a
  non-positive width; \<^verbatim>\<open>HungarianAlgorithm\<close> never.
\<close>

theorem invalid_matrix_guards:
  "(BacktrackAlgorithm h matrix = Inl INVALID_MATRIX_OR_INDICES) =
     (case matrix of None \<Rightarrow> True | Some m \<Rightarrow> width m \<le> 0 \<or> height m \<le> 0) \<and>
   BacktrackAlgorithm h matrix \<noteq> Inl MEMORY_ALLOCATION_FAILURE \<and>
   (GreedyAlgorithm h matrix = Inl INVALID_MATRIX_OR_INDICES) =
     (case matrix of None \<Rightarrow> True | Some m \<Rightarrow> width m \<le> 0) \<and>
   HungarianAlgorithm h m \<noteq> Some (h', Inl INVALID_MATRIX_OR_INDICES)"
  by (auto simp: BacktrackAlgorithm_def GreedyAlgorithm_def HungarianAlgorithm_def
        ExtractFinalSolution_def Let_def split: option.splits if_splits prod.splits)

text \<open>
  On a valid matrix the sum \<^verbatim>\<open>GreedyAlgorithm\<close> returns is the sum of the values it
  wrote to \<open>maxSelection\<close>, wrapped into the \<^verbatim>\<open>int\<close> range, and so is the sum of
  \<^verbatim>\<open>HungarianAlgorithm\<close> for its \<open>chosenElements\<close> whenever it returns.
\<close>

theorem greedy_hungarian_sums:
  assumes "valid_matrix h matrix"
  shows "(\<exists>g. GreedyAlgorithm h (Some matrix) = Inr g \<and> gMaxSum g = wrap (sum_list (gMaxSelection g))) \<and>
         (\<forall>h' x. HungarianAlgorithm h matrix = Some (h', Inr x) \<longrightarrow>
            xSum x = wrap (sum_list (xChosenElements x)))"
proof -
  from assms obtain g where g: "GreedyAlgorithm h (Some matrix) = Inr g"
    by (auto simp: GreedyAlgorithm_def valid_matrix_def calloc_fails_def)
  from greedy_selection_ok[OF assms g] g
  have "\<exists>g. GreedyAlgorithm h (Some matrix) = Inr g \<and> gMaxSum g = wrap (sum_list (gMaxSelection g))"
    by blast
  moreover have "xSum x = wrap (sum_list (xChosenElements x))"
    if "HungarianAlgorithm h matrix = Some (h', Inr x)" for h' x
    using hungarian_selection_ok[OF that] by simp
  ultimately show ?thesis
    by blast
qed

theorem greedy_hungarian_sums_witness:
  "valid_matrix heap_2x2 matrix_2x2 \<and>
   (\<exists>g. GreedyAlgorithm heap_2x2 (Some matrix_2x2) = Inr g \<and>
        gMaxSum g = wrap (sum_list (gMaxSelection g))) \<and>
   (\<exists>h' x. HungarianAlgorithm heap_2x2 matrix_2x2 = Some (h', Inr x) \<and>
        xSum x = wrap (sum_list (xChosenElements x)) \<and> xSum x = 5)"
proof -
  note t = greedy_hungarian_sums[OF examples_valid(4)]
  from t hungarian_2x2
  have "\<exists>h' x. HungarianAlgorithm heap_2x2 matrix_2x2 = Some (h', Inr x) \<and>
        xSum x = wrap (sum_list (xChosenElements x)) \<and> xSum x = 5"
    by simp
  with t examples_valid(4) show ?thesis
    by blast
qed

text \<open>
  What \<^verbatim>\<open>BacktrackAlgorithm\<close> returns on a valid matrix: the largest of 0 and the
  (wrapped) sums of all selections with one cell in every row and pairwise-distinct
  columns; so 0 when there is no such selection (\<open>H > W\<close>) or when all of them have a
  negative sum.
\<close>

theorem backtrack_sum_characterisation:
  assumes "valid_matrix h matrix"
  shows "\<exists>p. BacktrackAlgorithm h (Some matrix) = Inr p \<and>
             maxSum p = Max (insert 0 ((\<lambda>cs. wrap (path_sum h matrix 0 cs)) ` assignments matrix))"
proof -
  from assms have pos: "0 < width matrix" "0 < height matrix"
    by (auto simp: valid_matrix_def)
  then have run: "BacktrackAlgorithm h (Some matrix) = Inr (Explore h matrix 0 0 (explore_init matrix))"
    by (simp add: BacktrackAlgorithm_def)
  have "used_set (explore_init matrix) = {}"
    by (auto simp: used_set_def explore_init_def)
  moreover have "int_range 0"
    by (simp add: int_range_def INT_MIN_def INT_MAX_def)
  ultimately have "maxSum (Explore h matrix 0 0 (explore_init matrix)) =
          Max (insert 0 ((\<lambda>cs. wrap (0 + path_sum h matrix 0 cs)) ` assignments matrix))"
    using pos Explore_maxSum[where p = "explore_init matrix" and m = matrix and r = 0 and h = h and s = 0]
    by (simp add: explore_init_def assignments_def)
  with run show ?thesis
    by simp
qed

theorem backtrack_sum_characterisation_witness:
  "valid_matrix heap_2x2 matrix_2x2 \<and>
   (\<exists>p. BacktrackAlgorithm heap_2x2 (Some matrix_2x2) = Inr p \<and> maxSum p = 5) \<and>
   Max (insert 0 ((\<lambda>cs. wrap (path_sum heap_2x2 matrix_2x2 0 cs)) ` assignments matrix_2x2)) = 5"
  using backtrack_sum_characterisation[OF examples_valid(4)] backtrack_2x2 examples_valid(4)
  by auto

text \<open>
  On a valid matrix with \<open>H \<le> W\<close> all of whose cells are greater than \<^verbatim>\<open>INT_MIN\<close>,
  \<^verbatim>\<open>GreedyAlgorithm\<close> selects a cell in every row and its sum is at most the sum of
  \<^verbatim>\<open>BacktrackAlgorithm\<close>.
\<close>

theorem greedy_below_backtrack:
  assumes v: "valid_matrix h matrix" and hw: "height matrix \<le> width matrix"
    and big: "list_all (list_all (\<lambda>a. INT_MIN < val (h ! a))) (head matrix)"
  shows "\<exists>g p. GreedyAlgorithm h (Some matrix) = Inr g \<and>
               BacktrackAlgorithm h (Some matrix) = Inr p \<and>
               int (length (gCells g)) = height matrix \<and>
               gMaxSum g \<le> maxSum p"
proof -
  let ?g = "greedy_rows h (head matrix) 0 (greedy_init matrix)"
  from v have pos: "0 < width matrix" "0 < height matrix"
    and len: "length (head matrix) = nat (height matrix)"
    by (auto simp: valid_matrix_def)
  then have run: "GreedyAlgorithm h (Some matrix) = Inr ?g"
    by (simp add: GreedyAlgorithm_def calloc_fails_def)
  have "greedy_full h matrix 0 (greedy_init matrix)"
    by (simp add: greedy_full_def greedy_inv_def greedy_init_def wrap_zero)
  from greedy_rows_full[OF v hw big _ this, of "head matrix"] len
  have full: "greedy_full h matrix (nat (height matrix)) ?g"
    by simp
  then have ginv: "greedy_inv (width matrix) (nat (height matrix)) ?g"
    and rows: "map row (gCells ?g) = map int [0..<nat (height matrix)]"
    and vals: "list_all (\<lambda>e. selval e = cell_value h matrix (nat (row e)) (nat (col e))) (gCells ?g)"
    by (auto simp: greedy_full_def)
  from rows have n: "length (gCells ?g) = nat (height matrix)"
    using length_map[of row "gCells ?g"] by simp
  let ?cs = "map (\<lambda>e. nat (col e)) (gCells ?g)"
  from ginv have cols: "distinct (map col (gCells ?g))"
    "\<forall>e \<in> set (gCells ?g). 0 \<le> col e \<and> col e < width matrix"
    and sum: "gMaxSum ?g = wrap (sum_list (map selval (gCells ?g)))"
    by (auto simp: greedy_inv_def list_all_iff)
  have "distinct ?cs"
  proof -
    have "inj_on nat (set (map col (gCells ?g)))"
    proof (rule inj_onI)
      fix x y
      assume "x \<in> set (map col (gCells ?g))" "y \<in> set (map col (gCells ?g))"
      with cols(2) have "0 \<le> x" "0 \<le> y"
        by auto
      moreover assume "nat x = nat y"
      ultimately show "x = y"
        by simp
    qed
    with cols(1) have "distinct (map nat (map col (gCells ?g)))"
      by (simp only: distinct_map)
    then show ?thesis
      by (simp add: comp_def)
  qed
  moreover have "set ?cs \<subseteq> {..<nat (width matrix)}"
    using cols(2) by auto
  ultimately have "?cs \<in> assignments matrix"
    using n by (simp add: assignments_def completions_def)
  moreover from path_sum_cells[of "gCells ?g" 0 h matrix] rows vals n sum
  have "wrap (path_sum h matrix 0 ?cs) = gMaxSum ?g"
    by simp
  ultimately have "gMaxSum ?g \<in> insert 0 ((\<lambda>cs. wrap (path_sum h matrix 0 cs)) ` assignments matrix)"
    by force
  moreover have "finite (insert 0 ((\<lambda>cs. wrap (path_sum h matrix 0 cs)) ` assignments matrix))"
    using finite_completions[of matrix 0 "{}"] by (simp add: assignments_def)
  ultimately have "gMaxSum ?g \<le> Max (insert 0 ((\<lambda>cs. wrap (path_sum h matrix 0 cs)) ` assignments matrix))"
    by (rule Max_ge[rotated])
  with backtrack_sum_characterisation[OF v] run n pos show ?thesis
    by auto
qed

theorem greedy_below_backtrack_witness:
  "valid_matrix heap_2x2 matrix_2x2 \<and> height matrix_2x2 \<le> width matrix_2x2 \<and>
   list_all (list_all (\<lambda>a. INT_MIN < val (heap_2x2 ! a))) (head matrix_2x2) \<and>
   (\<exists>g p. GreedyAlgorithm heap_2x2 (Some matrix_2x2) = Inr g \<and>
          BacktrackAlgorithm heap_2x2 (Some matrix_2x2) = Inr p \<and>
          gMaxSum g \<le> maxSum p \<and> maxSum p = 5)"
proof -
  have hw: "height matrix_2x2 \<le> width matrix_2x2"
    by (simp add: matrix_2x2_def)
  have big: "list_all (list_all (\<lambda>a. INT_MIN < val (heap_2x2 ! a))) (head matrix_2x2)"
    by code_simp
  from greedy_below_backtrack[OF examples_valid(4) hw big] backtrack_2x2
  have "\<exists>g p. GreedyAlgorithm heap_2x2 (Some matrix_2x2) = Inr g \<and>
          BacktrackAlgorithm heap_2x2 (Some matrix_2x2) = Inr p \<and>
          gMaxSum g \<le> maxSum p \<and> maxSum p = 5"
    by auto
  with examples_valid(4) hw big show ?thesis
    by blast
qed

end
